theory Spec2Isabelle
  imports Main
begin

section \<open>Strings and Python list primitives\<close>

text \<open>
  The editor works on Python \<^verbatim>\<open>str\<close> values.  They are modelled as \<^typ>\<open>string\<close>, so a
  character is one of the 256 code points below \<open>0x100\<close>.  A file on disk is the list of
  its characters; both files are opened in text mode, and the newline translation of that
  mode is \<open>universal_newlines\<close> for reading and \<open>write_newlines\<close> for writing.
\<close>

definition tab :: char where
  "tab = CHR 0x09"

definition nl :: char where
  "nl = CHR 0x0A"

definition cr :: char where
  "cr = CHR 0x0D"

definition space :: char where
  "space = CHR 0x20"

text \<open>
  \<^verbatim>\<open>str.expandtabs()\<close> with the default tab size 8: a tab becomes the spaces up to the
  next multiple of 8 of the running column, and a line break resets the column.
\<close>

fun expandtabs_from :: "nat \<Rightarrow> string \<Rightarrow> string" where
  "expandtabs_from col [] = []"
| "expandtabs_from col (c # cs) =
     (if c = tab then
        (let incr = 8 - col mod 8
         in replicate incr space @ expandtabs_from (col + incr) cs)
      else c # expandtabs_from (if c = nl \<or> c = cr then 0 else col + 1) cs)"

definition expandtabs :: "string \<Rightarrow> string" where
  "expandtabs s = expandtabs_from 0 s"

text \<open>
  \<^verbatim>\<open>str.isspace\<close> on the code points below \<open>0x100\<close>, and \<^verbatim>\<open>str.rstrip()\<close> without
  argument, which removes the trailing whitespace characters.
\<close>

definition is_space :: "char \<Rightarrow> bool" where
  "is_space c = (c \<in> set [CHR 0x09, CHR 0x0A, CHR 0x0B, CHR 0x0C, CHR 0x0D,
                           CHR 0x1C, CHR 0x1D, CHR 0x1E, CHR 0x1F, CHR 0x20,
                           CHR 0x85, CHR 0xA0])"

definition rstrip :: "string \<Rightarrow> string" where
  "rstrip s = rev (dropWhile is_space (rev s))"

text \<open>The slice \<^verbatim>\<open>s[a:b]\<close> for non-negative bounds.\<close>

definition slice :: "'a list \<Rightarrow> nat \<Rightarrow> nat \<Rightarrow> 'a list" where
  "slice s a b = take (b - a) (drop a s)"

text \<open>\<^verbatim>\<open>range(i, n, 8)\<close>.\<close>

function range8 :: "nat \<Rightarrow> nat \<Rightarrow> nat list" where
  "range8 i n = (if i < n then i # range8 (i + 8) n else [])"
  by pat_completeness auto
termination
  by (relation "measure (\<lambda>(i, n). n - i)") auto

declare range8.simps [simp del]

text \<open>
  \<^verbatim>\<open>re_tab\<close>: the loop body over the state \<open>(l, p)\<close>, and the function.
  \<^verbatim>\<open>
  def re_tab(s):
      l = []
      p = 0
      for i in range(8, len(s), 8):
          if s[i-2:i] == "  ":
              l.append(s[p:i].rstrip() + "\t")
              p = i
      if p == 0:
          return s
      else:
          l.append(s[p:])
          return "".join(l)
  \<close>
\<close>

definition re_tab_step :: "string \<Rightarrow> nat \<Rightarrow> string list \<times> nat \<Rightarrow> string list \<times> nat" where
  "re_tab_step s i = (\<lambda>(l, p).
     if slice s (i - 2) i = [space, space]
     then (l @ [rstrip (slice s p i) @ [tab]], i)
     else (l, p))"

definition re_tab :: "string \<Rightarrow> string" where
  "re_tab s =
     (case fold (re_tab_step s) (range8 8 (length s)) ([], 0) of
        (l, p) \<Rightarrow> if p = 0 then s else concat (l @ [drop p s]))"


text \<open>
  Python list operations with an \<^verbatim>\<open>int\<close> index.  Subscript, \<^verbatim>\<open>pop\<close> and \<^verbatim>\<open>del\<close> count a
  negative index from the end and raise \<^verbatim>\<open>IndexError\<close> out of range; \<^verbatim>\<open>insert\<close> clamps
  its index instead.
\<close>

datatype py_error = IndexError | AssertionError | AttributeError

definition py_index :: "int \<Rightarrow> nat \<Rightarrow> nat option" where
  "py_index i n =
     (let j = (if i < 0 then i + int n else i)
      in if 0 \<le> j \<and> j < int n then Some (nat j) else None)"

definition py_getitem :: "'a list \<Rightarrow> int \<Rightarrow> py_error + 'a" where
  "py_getitem xs i =
     (case py_index i (length xs) of
        None \<Rightarrow> Inl IndexError
      | Some j \<Rightarrow> Inr (xs ! j))"

definition py_pop :: "'a list \<Rightarrow> int \<Rightarrow> py_error + 'a \<times> 'a list" where
  "py_pop xs i =
     (case py_index i (length xs) of
        None \<Rightarrow> Inl IndexError
      | Some j \<Rightarrow> Inr (xs ! j, take j xs @ drop (Suc j) xs))"

definition py_delitem :: "'a list \<Rightarrow> int \<Rightarrow> py_error + 'a list" where
  "py_delitem xs i =
     (case py_index i (length xs) of
        None \<Rightarrow> Inl IndexError
      | Some j \<Rightarrow> Inr (take j xs @ drop (Suc j) xs))"

definition py_insert :: "'a list \<Rightarrow> int \<Rightarrow> 'a \<Rightarrow> 'a list" where
  "py_insert xs i x =
     (let n = int (length xs);
          j = (if i < 0 then max 0 (i + n) else min i n)
      in take (nat j) xs @ x # drop (nat j) xs)"

text \<open>
  \<^verbatim>\<open>open(name)\<close> opens the file in text mode with universal newlines: on reading, every
  \<^verbatim>\<open>'\r\n'\<close> and every other \<^verbatim>\<open>'\r'\<close> of the file is delivered as \<^verbatim>\<open>'\n'\<close>.
\<close>

fun universal_newlines :: "string \<Rightarrow> string" where
  "universal_newlines [] = []"
| "universal_newlines [c] = (if c = cr then [nl] else [c])"
| "universal_newlines (c # d # cs) =
     (if c = cr then
        (if d = nl then nl # universal_newlines cs
         else nl # universal_newlines (d # cs))
      else c # universal_newlines (d # cs))"

text \<open>
  \<^verbatim>\<open>open(name, "w")\<close> is text mode as well: on writing, every \<^verbatim>\<open>'\n'\<close> becomes the line
  separator of the platform, \<^verbatim>\<open>os.linesep\<close>, which is a parameter here.
\<close>

definition write_newlines :: "string \<Rightarrow> string \<Rightarrow> string" where
  "write_newlines linesep out = concat (map (\<lambda>c. if c = nl then linesep else [c]) out)"

text \<open>
  \<^verbatim>\<open>file.readline()\<close> on the characters not yet read: the line up to and including the
  first line terminator (or everything, when there is none), and what is left.
\<close>

fun readline :: "string \<Rightarrow> string \<times> string" where
  "readline [] = ([], [])"
| "readline (c # cs) =
     (if c = nl then ([c], cs)
      else (case readline cs of (l, r) \<Rightarrow> (c # l, r)))"

section \<open>Edit widgets\<close>

text \<open>
  A line is a \<^verbatim>\<open>HighlightedEdit\<close> widget: the text and cursor of \<^verbatim>\<open>urwid.Edit\<close>, and the
  attribute \<^verbatim>\<open>original_text\<close> that the walker attaches right after construction.  From the
  library: the constructor puts the cursor at the end of the text, \<^verbatim>\<open>set_edit_text\<close>
  pulls a cursor beyond the new text back to its end, and \<^verbatim>\<open>set_edit_pos\<close> stores the
  position (every call of the walker passes one inside the text).  The lexer only matters
  for display and is left out.
\<close>

record edit =
  edit_text :: string
  edit_pos :: nat
  original_text :: string

definition HighlightedEdit :: "string \<Rightarrow> edit" where
  "HighlightedEdit t = \<lparr>edit_text = t, edit_pos = length t, original_text = []\<rparr>"

definition set_edit_pos :: "edit \<Rightarrow> nat \<Rightarrow> edit" where
  "set_edit_pos e p = e\<lparr>edit_pos := p\<rparr>"

definition set_edit_text :: "edit \<Rightarrow> string \<Rightarrow> edit" where
  "set_edit_text e t = e\<lparr>edit_text := t, edit_pos := min (edit_pos e) (length t)\<rparr>"

section \<open>The line walker\<close>

text \<open>
  Widgets are objects: \<^verbatim>\<open>lines\<close> and \<^verbatim>\<open>clipboard\<close> hold references, and the methods
  mutate the widget a reference points to.  The state therefore has a store of widgets; a
  reference is an index into it, and constructing a widget appends to it.  \<open>file_obj\<close>
  (the attribute \<^verbatim>\<open>file\<close>) is
  \<open>None\<close> once the walker has dropped the file object, and otherwise the characters not yet
  read.
\<close>

record walker =
  store :: "edit list"
  file_obj :: "string option"
  lines :: "nat list"
  focus :: int
  clipboard :: "nat list option"

definition alloc :: "edit list \<Rightarrow> edit \<Rightarrow> nat \<times> edit list" where
  "alloc h e = (length h, h @ [e])"

definition upd :: "edit list \<Rightarrow> nat \<Rightarrow> (edit \<Rightarrow> edit) \<Rightarrow> edit list" where
  "upd h a f = h[a := f (h ! a)]"

text \<open>
  \<^verbatim>\<open>LineWalker.__init__\<close>: the file with the characters \<open>content\<close> is opened for reading
  in text mode, its first line is read for the choice of the lexer, and the file is rewound.
  What is left to read is then the whole text that the file object delivers.
\<close>

definition LineWalker :: "string \<Rightarrow> walker" where
  "LineWalker content =
     \<lparr>store = [], file_obj = Some (universal_newlines content), lines = [], focus = 0,
      clipboard = None\<rparr>"

definition set_focus :: "walker \<Rightarrow> int \<Rightarrow> walker" where
  "set_focus w f = w\<lparr>focus := f\<rparr>"

text \<open>
  \<^verbatim>\<open>
  def read_next_line(self):
      next_line = self.file.readline()
      if not next_line or next_line[-1:] != '\n':
          self.file = None
      else:
          next_line = next_line[:-1]
      expanded = next_line.expandtabs()
      edit = HighlightedEdit(caption="", edit_text=expanded, ...)
      edit.set_edit_pos(0)
      edit.original_text = next_line
      self.lines.append(edit)
      return next_line
  \<close>
  Without a file object, \<^verbatim>\<open>self.file.readline\<close> raises \<^verbatim>\<open>AttributeError\<close>.
\<close>

definition read_next_line :: "walker \<Rightarrow> py_error + string \<times> walker" where
  "read_next_line w =
     (case file_obj w of
        None \<Rightarrow> Inl AttributeError
      | Some content \<Rightarrow>
          (case readline content of (data, rest) \<Rightarrow>
             (let closed = (data = [] \<or> last data \<noteq> nl);
                  next_line = (if closed then data else butlast data);
                  expanded = expandtabs next_line;
                  (a, h) = alloc (store w) (HighlightedEdit expanded);
                  h = upd h a (\<lambda>e. set_edit_pos e 0);
                  h = upd h a (\<lambda>e. e\<lparr>original_text := next_line\<rparr>)
              in Inr (next_line,
                      w\<lparr>file_obj := (if closed then None else Some rest),
                        store := h,
                        lines := lines w @ [a]\<rparr>))))"

text \<open>
  \<^verbatim>\<open>
  def _get_at_pos(self, pos):
      if pos < 0:
          return None, None
      if len(self.lines) > pos:
          return self.lines[pos], pos
      if self.file is None:
          return None, None
      assert pos == len(self.lines), "out of order request?"
      self.read_next_line()
      return self.lines[-1], pos
  \<close>
  The result \<open>None\<close> is the pair \<^verbatim>\<open>(None, None)\<close>.
\<close>

definition get_at_pos :: "walker \<Rightarrow> int \<Rightarrow> py_error + (nat \<times> int) option \<times> walker" where
  "get_at_pos w pos =
     (if pos < 0 then Inr (None, w)
      else if int (length (lines w)) > pos then Inr (Some (lines w ! nat pos, pos), w)
      else if file_obj w = None then Inr (None, w)
      else if pos \<noteq> int (length (lines w)) then Inl AssertionError
      else (case read_next_line w of
              Inl e \<Rightarrow> Inl e
            | Inr (_, w') \<Rightarrow>
                (case py_getitem (lines w') (- 1) of
                   Inl e \<Rightarrow> Inl e
                 | Inr a \<Rightarrow> Inr (Some (a, pos), w'))))"

definition get_focus :: "walker \<Rightarrow> py_error + (nat \<times> int) option \<times> walker" where
  "get_focus w = get_at_pos w (focus w)"

definition get_next :: "walker \<Rightarrow> int \<Rightarrow> py_error + (nat \<times> int) option \<times> walker" where
  "get_next w start_from = get_at_pos w (start_from + 1)"

definition get_prev :: "walker \<Rightarrow> int \<Rightarrow> py_error + (nat \<times> int) option \<times> walker" where
  "get_prev w start_from = get_at_pos w (start_from - 1)"

text \<open>
  \<^verbatim>\<open>
  def split_focus(self):
      focus = self.lines[self.focus]
      pos = focus.edit_pos
      edit = HighlightedEdit(caption="", edit_text=focus.edit_text[pos:], ...)
      edit.original_text = ""
      focus.set_edit_text(focus.edit_text[:pos])
      edit.set_edit_pos(0)
      self.lines.insert(self.focus+1, edit)
  \<close>
\<close>

definition split_focus :: "walker \<Rightarrow> py_error + walker" where
  "split_focus w =
     (case py_getitem (lines w) (focus w) of
        Inl e \<Rightarrow> Inl e
      | Inr fa \<Rightarrow>
          (let pos = edit_pos (store w ! fa);
               (a, h) = alloc (store w) (HighlightedEdit (drop pos (edit_text (store w ! fa))));
               h = upd h a (\<lambda>e. e\<lparr>original_text := []\<rparr>);
               h = upd h fa (\<lambda>e. set_edit_text e (take pos (edit_text e)));
               h = upd h a (\<lambda>e. set_edit_pos e 0)
           in Inr (w\<lparr>store := h, lines := py_insert (lines w) (focus w + 1) a\<rparr>)))"

text \<open>
  \<^verbatim>\<open>
  def combine_focus_with_prev(self):
      above, ignore = self.get_prev(self.focus)
      if above is None:
          return
      focus = self.lines[self.focus]
      above.set_edit_pos(len(above.edit_text))
      above.set_edit_text(above.edit_text + focus.edit_text)
      del self.lines[self.focus]
      self.focus -= 1
  \<close>
\<close>

definition combine_focus_with_prev :: "walker \<Rightarrow> py_error + walker" where
  "combine_focus_with_prev w =
     (case get_prev w (focus w) of
        Inl e \<Rightarrow> Inl e
      | Inr (None, w) \<Rightarrow> Inr w
      | Inr (Some (above_w, _), w) \<Rightarrow>
          (case py_getitem (lines w) (focus w) of
             Inl e \<Rightarrow> Inl e
           | Inr fa \<Rightarrow>
               (let h = upd (store w) above_w (\<lambda>e. set_edit_pos e (length (edit_text e)));
                    h = upd h above_w (\<lambda>e. set_edit_text e (edit_text e @ edit_text (h ! fa)))
                in (case py_delitem (lines w) (focus w) of
                      Inl e \<Rightarrow> Inl e
                    | Inr ls \<Rightarrow> Inr (w\<lparr>store := h, lines := ls, focus := focus w - 1\<rparr>)))))"

text \<open>
  \<^verbatim>\<open>
  def combine_focus_with_next(self):
      below, ignore = self.get_next(self.focus)
      if below is None:
          return
      focus = self.lines[self.focus]
      focus.set_edit_text(focus.edit_text + below.edit_text)
      del self.lines[self.focus+1]
  \<close>
\<close>

definition combine_focus_with_next :: "walker \<Rightarrow> py_error + walker" where
  "combine_focus_with_next w =
     (case get_next w (focus w) of
        Inl e \<Rightarrow> Inl e
      | Inr (None, w) \<Rightarrow> Inr w
      | Inr (Some (below_w, _), w) \<Rightarrow>
          (case py_getitem (lines w) (focus w) of
             Inl e \<Rightarrow> Inl e
           | Inr fa \<Rightarrow>
               (let h = upd (store w) fa (\<lambda>e. set_edit_text e (edit_text e @ edit_text (store w ! below_w)))
                in (case py_delitem (lines w) (focus w + 1) of
                      Inl e \<Rightarrow> Inl e
                    | Inr ls \<Rightarrow> Inr (w\<lparr>store := h, lines := ls\<rparr>)))))"

text \<open>
  \<^verbatim>\<open>
  def get_coords(self):
      focus = self.focus
      return focus + 1, self.lines[self.focus].edit_pos + 1
  \<close>
\<close>

definition get_coords :: "walker \<Rightarrow> py_error + int \<times> int" where
  "get_coords w =
     (case py_getitem (lines w) (focus w) of
        Inl e \<Rightarrow> Inl e
      | Inr a \<Rightarrow> Inr (focus w + 1, int (edit_pos (store w ! a)) + 1))"

text \<open>
  \<^verbatim>\<open>
  def cut_to_clipboard(self):
      if self.clipboard is None:
         self.clipboard = []
      focus = self.focus
      self.clipboard.append(self.lines.pop(focus))
      if focus == len(self.lines):
         focus -= 1
      self.set_focus(focus)
  \<close>
\<close>

definition cut_to_clipboard :: "walker \<Rightarrow> py_error + walker" where
  "cut_to_clipboard w =
     (let cb = (case clipboard w of None \<Rightarrow> [] | Some c \<Rightarrow> c);
          f = focus w
      in (case py_pop (lines w) f of
            Inl e \<Rightarrow> Inl e
          | Inr (a, ls) \<Rightarrow>
              (let w = w\<lparr>clipboard := Some (cb @ [a]), lines := ls\<rparr>;
                   f = (if f = int (length (lines w)) then f - 1 else f)
               in Inr (set_focus w f))))"

text \<open>
  \<^verbatim>\<open>
  def paste_from_clipboard(self):
      cb = self.clipboard
      if cb is None:
          return
      for line in cb[::-1]:
          newline = HighlightedEdit(caption="", edit_text=line.get_edit_text(), ...)
          newline.original_text = ""
          self.lines.insert(self.focus, newline)
      self.set_focus(self.focus + len(cb))
  \<close>
\<close>

definition paste_line :: "nat \<Rightarrow> walker \<Rightarrow> walker" where
  "paste_line line w =
     (let (a, h) = alloc (store w) (HighlightedEdit (edit_text (store w ! line)));
          h = upd h a (\<lambda>e. e\<lparr>original_text := []\<rparr>)
      in w\<lparr>store := h, lines := py_insert (lines w) (focus w) a\<rparr>)"

definition paste_from_clipboard :: "walker \<Rightarrow> walker" where
  "paste_from_clipboard w =
     (case clipboard w of
        None \<Rightarrow> w
      | Some cb \<Rightarrow>
          (let w = fold paste_line (rev cb) w
           in set_focus w (focus w + int (length cb))))"

definition clear_clipboard :: "walker \<Rightarrow> walker" where
  "clear_clipboard w = w\<lparr>clipboard := None\<rparr>"

section \<open>Saving\<close>

text \<open>
  \<^verbatim>\<open>
  def save_file(self):
      l = []
      walk = self.walker
      for edit in walk.lines:
          if edit.original_text.expandtabs() == edit.edit_text:
              l.append(edit.original_text)
          else:
              l.append(edit.edit_text)
      while walk.file is not None:
          l.append(walk.read_next_line())
      outfile = open(self.save_name, "w")
      prefix = ""
      for line in l:
          outfile.write(prefix + line)
          prefix = "\n"
  \<close>
  The three passes are \<open>collect_lines\<close>, \<open>read_rest\<close> and \<open>write_lines\<close>; the result of
  \<open>save_file\<close> is the text passed to \<^verbatim>\<open>outfile.write\<close>, with the walker as the second
  loop leaves it.
\<close>

definition collect_line :: "edit list \<Rightarrow> nat \<Rightarrow> string list \<Rightarrow> string list" where
  "collect_line h a l =
     (if expandtabs (original_text (h ! a)) = edit_text (h ! a)
      then l @ [original_text (h ! a)]
      else l @ [edit_text (h ! a)])"

definition collect_lines :: "walker \<Rightarrow> string list" where
  "collect_lines w = fold (collect_line (store w)) (lines w) []"

lemma readline_length: "readline s = (d, r) \<Longrightarrow> length d + length r = length s"
  by (induction s arbitrary: d r) (auto split: if_splits prod.splits)

function read_rest :: "walker \<Rightarrow> string list \<Rightarrow> py_error + string list \<times> walker" where
  "read_rest w l =
     (if file_obj w = None then Inr (l, w)
      else (case read_next_line w of
              Inl e \<Rightarrow> Inl e
            | Inr (line, w') \<Rightarrow> read_rest w' (l @ [line])))"
  by pat_completeness auto
termination
proof (relation "measure (\<lambda>(w, l). case file_obj w of None \<Rightarrow> 0 | Some c \<Rightarrow> Suc (length c))")
  show "wf (measure (\<lambda>(w, l). case file_obj w of None \<Rightarrow> 0 | Some c \<Rightarrow> Suc (length c)))"
    by simp
next
  fix w :: walker and l :: "string list" and x :: "string \<times> walker" and line w'
  assume open_file: "file_obj w \<noteq> None"
    and rd: "read_next_line w = Inr x" and x: "(line, w') = x"
  from open_file obtain c where c: "file_obj w = Some c" by auto
  obtain d r where dr: "readline c = (d, r)" by (cases "readline c")
  have len: "length d + length r = length c" using dr by (rule readline_length)
  have "file_obj w' = (if d = [] \<or> last d \<noteq> nl then None else Some r)"
    using rd x c dr by (auto simp: read_next_line_def Let_def alloc_def split: prod.splits)
  moreover have "d \<noteq> [] \<Longrightarrow> length r < length c" using len by (cases d) auto
  ultimately show "((w', l @ [line]), (w, l))
      \<in> measure (\<lambda>(w, l). case file_obj w of None \<Rightarrow> 0 | Some c \<Rightarrow> Suc (length c))"
    using c by auto
qed

declare read_rest.simps [simp del]

fun write_lines :: "string \<Rightarrow> string list \<Rightarrow> string" where
  "write_lines prefix [] = []"
| "write_lines prefix (line # ls) = (prefix @ line) @ write_lines [nl] ls"

definition save_file :: "walker \<Rightarrow> py_error + string \<times> walker" where
  "save_file w =
     (case read_rest w (collect_lines w) of
        Inl e \<Rightarrow> Inl e
      | Inr (l, w') \<Rightarrow> Inr (write_lines [] l, w'))"

text \<open>
  The characters that \<open>save_file\<close> leaves in the output file, on a platform with the line
  separator \<open>linesep\<close>.
\<close>

definition save_file_bytes :: "string \<Rightarrow> walker \<Rightarrow> py_error + string \<times> walker" where
  "save_file_bytes linesep w =
     (case save_file w of
        Inl e \<Rightarrow> Inl e
      | Inr (out, w') \<Rightarrow> Inr (write_newlines linesep out, w'))"

section \<open>Sequences of operations\<close>

text \<open>
  The operations the host shell calls on the buffer, and their effect on the walker when
  they return.
\<close>

datatype command =
    GetFocus | SetFocus int | GetNext int | GetPrev int | GetCoords
  | SplitFocus | CombineFocusWithPrev | CombineFocusWithNext
  | CutToClipboard | PasteFromClipboard | ClearClipboard | SaveFile

fun step :: "walker \<Rightarrow> command \<Rightarrow> py_error + walker" where
  "step w GetFocus = (case get_focus w of Inl e \<Rightarrow> Inl e | Inr (_, w') \<Rightarrow> Inr w')"
| "step w (SetFocus f) = Inr (set_focus w f)"
| "step w (GetNext p) = (case get_next w p of Inl e \<Rightarrow> Inl e | Inr (_, w') \<Rightarrow> Inr w')"
| "step w (GetPrev p) = (case get_prev w p of Inl e \<Rightarrow> Inl e | Inr (_, w') \<Rightarrow> Inr w')"
| "step w GetCoords = (case get_coords w of Inl e \<Rightarrow> Inl e | Inr _ \<Rightarrow> Inr w)"
| "step w SplitFocus = split_focus w"
| "step w CombineFocusWithPrev = combine_focus_with_prev w"
| "step w CombineFocusWithNext = combine_focus_with_next w"
| "step w CutToClipboard = cut_to_clipboard w"
| "step w PasteFromClipboard = Inr (paste_from_clipboard w)"
| "step w ClearClipboard = Inr (clear_clipboard w)"
| "step w SaveFile = (case save_file w of Inl e \<Rightarrow> Inl e | Inr (_, w') \<Rightarrow> Inr w')"

fun run :: "walker \<Rightarrow> command list \<Rightarrow> py_error + walker" where
  "run w [] = Inr w"
| "run w (c # cs) = (case step w c of Inl e \<Rightarrow> Inl e | Inr w' \<Rightarrow> run w' cs)"

text \<open>The operations that change the text or the order of lines.\<close>

fun edits :: "command \<Rightarrow> bool" where
  "edits SplitFocus = True"
| "edits CombineFocusWithPrev = True"
| "edits CombineFocusWithNext = True"
| "edits CutToClipboard = True"
| "edits PasteFromClipboard = True"
| "edits _ = False"

section \<open>Observations used in the statements\<close>

text \<open>The displayed text and the original text of every line, in order.\<close>

definition texts :: "walker \<Rightarrow> string list" where
  "texts w = map (\<lambda>a. edit_text (store w ! a)) (lines w)"

definition origs :: "walker \<Rightarrow> string list" where
  "origs w = map (\<lambda>a. original_text (store w ! a)) (lines w)"

text \<open>
  Every reference held by the walker points into the store.  Python has no dangling
  references, so this holds of every state of the program; the model states it.
\<close>

definition valid_refs :: "walker \<Rightarrow> bool" where
  "valid_refs w =
     (list_all (\<lambda>a. a < length (store w)) (lines w) \<and>
      (case clipboard w of None \<Rightarrow> True | Some cb \<Rightarrow> list_all (\<lambda>a. a < length (store w)) cb))"

text \<open>
  The fields of a line between its tabs (\<^verbatim>\<open>s.split('\t')\<close>), and the lines on which
  re-tabbing undoes tab expansion: no field has a line break or a pair of spaces ending at
  one of its 8-column stops; a field followed by a tab does not end in whitespace and
  leaves the tab at least two columns; the line does not end with a tab.
\<close>

fun split_tabs :: "string \<Rightarrow> string list" where
  "split_tabs [] = [[]]"
| "split_tabs (c # cs) =
     (if c = tab then [] # split_tabs cs
      else (case split_tabs cs of [] \<Rightarrow> [[c]] | w # ws \<Rightarrow> (c # w) # ws))"

definition no_space_pair_at_stop :: "string \<Rightarrow> bool" where
  "no_space_pair_at_stop w =
     list_all (\<lambda>i. slice w (i - 2) i \<noteq> [space, space]) (range8 8 (length w))"

definition tab_aligned :: "string \<Rightarrow> bool" where
  "tab_aligned s =
     (let fields = split_tabs s
      in list_all (\<lambda>w. nl \<notin> set w \<and> cr \<notin> set w \<and> no_space_pair_at_stop w) fields \<and>
         list_all (\<lambda>w. (w = [] \<or> \<not> is_space (last w)) \<and> length w mod 8 \<le> 6) (butlast fields) \<and>
         (1 < length fields \<longrightarrow> last fields \<noteq> []))"

text \<open>
  A store \<open>h'\<close> keeps the originals of \<open>h\<close>: every widget of \<open>h\<close> is still there, with the
  \<^verbatim>\<open>original_text\<close> it had.
\<close>

definition keeps_originals :: "edit list \<Rightarrow> edit list \<Rightarrow> bool" where
  "keeps_originals h h' =
     (length h \<le> length h' \<and>
      (\<forall>a<length h. original_text (h' ! a) = original_text (h ! a)))"

text \<open>
  The list box asks for lines in order: \<open>n\<close> successive requests, each for the first
  position not yet materialized.
\<close>

fun materialize :: "nat \<Rightarrow> walker \<Rightarrow> py_error + walker" where
  "materialize 0 w = Inr w"
| "materialize (Suc n) w =
     (case get_at_pos w (int (length (lines w))) of
        Inl e \<Rightarrow> Inl e
      | Inr (_, w') \<Rightarrow> materialize n w')"

text \<open>
  The buffer over the delivered text \<open>s\<close> has only unedited lines: every line shows the expansion
  of its original text, and the originals read so far, each with its terminator, followed
  by what is left to read, make up \<open>s\<close>; once the file object is gone the originals joined
  by terminators are \<open>s\<close>.
\<close>

definition pristine :: "string \<Rightarrow> walker \<Rightarrow> bool" where
  "pristine s w =
     (list_all (\<lambda>a. a < length (store w) \<and>
                    edit_text (store w ! a) = expandtabs (original_text (store w ! a))) (lines w) \<and>
      (case file_obj w of
         Some rest \<Rightarrow> concat (map (\<lambda>x. x @ [nl]) (origs w)) @ rest = s
       | None \<Rightarrow> lines w \<noteq> [] \<and> write_lines [] (origs w) = s))"

text \<open>A buffer of two lines read from a file, the second of them edited since.\<close>

definition two_tabbed_lines :: walker where
  "two_tabbed_lines =
     \<lparr>store = [\<lparr>edit_text = ''abcdefg h'', edit_pos = 0,
                 original_text = ''abcdefg'' @ [tab] @ ''h''\<rparr>,
               \<lparr>edit_text = ''x   y'', edit_pos = 0,
                 original_text = ''x'' @ [tab] @ ''y''\<rparr>],
       file_obj = None, lines = [0, 1], focus = 0, clipboard = None\<rparr>"


text \<open>
  For the proofs about \<open>re_tab\<close>: the same computation by recursion over the 8-column
  windows of the text still to scan, with the text pending since the last inserted tab;
  and \<^verbatim>\<open>'\t'.join(fields)\<close>.
\<close>

function retab_rec :: "string \<Rightarrow> string \<Rightarrow> string" where
  "retab_rec buf rem =
     (if length rem \<le> 8 then buf @ rem
      else if slice rem 6 8 = [space, space]
           then rstrip (buf @ take 8 rem) @ [tab] @ retab_rec [] (drop 8 rem)
           else retab_rec (buf @ take 8 rem) (drop 8 rem))"
  by pat_completeness auto
termination
  by (relation "measure (\<lambda>(buf, rem). length rem)") auto

declare retab_rec.simps [simp del]

fun join_tabs :: "string list \<Rightarrow> string" where
  "join_tabs [] = []"
| "join_tabs [w] = w"
| "join_tabs (w # ws) = w @ tab # join_tabs ws"

section \<open>Basic facts about the operations\<close>

lemma universal_newlines_id: "cr \<notin> set s \<Longrightarrow> universal_newlines s = s"
  by (induction s rule: universal_newlines.induct) auto

lemma write_newlines_lf: "write_newlines [nl] out = out"
  by (induction out) (simp_all add: write_newlines_def)

lemma readline_append: "readline s = (d, r) \<Longrightarrow> d @ r = s"
  by (induction s arbitrary: d r) (auto split: if_splits prod.splits)

lemma readline_no_nl: "readline s = (d, r) \<Longrightarrow> nl \<notin> set (butlast d)"
  by (induction s arbitrary: d r) (auto split: if_splits prod.splits)

lemma readline_eof: "readline s = (d, r) \<Longrightarrow> d = [] \<or> last d \<noteq> nl \<Longrightarrow> r = []"
  by (induction s arbitrary: d r) (auto split: if_splits prod.splits)

lemma get_at_pos_closed:
  "get_at_pos w pos = Inr (r, w') \<Longrightarrow> file_obj w = None \<Longrightarrow> w' = w"
  by (auto simp: get_at_pos_def split: if_splits)

lemma paste_line_frame [simp]:
  "file_obj (paste_line a w) = file_obj w"
  "focus (paste_line a w) = focus w"
  "clipboard (paste_line a w) = clipboard w"
  by (simp_all add: paste_line_def alloc_def Let_def)

lemma fold_paste_line_frame [simp]:
  "file_obj (fold paste_line cb w) = file_obj w"
  "focus (fold paste_line cb w) = focus w"
  "clipboard (fold paste_line cb w) = clipboard w"
  by (induction cb arbitrary: w) simp_all

section \<open>The line source\<close>

lemma step_closed:
  "step w c = Inr w' \<Longrightarrow> file_obj w = None \<Longrightarrow> file_obj w' = None"
proof (cases c)
  case SaveFile
  assume "file_obj w = None" "step w c = Inr w'"
  then show ?thesis using SaveFile
    by (auto simp: save_file_def read_rest.simps split: sum.splits)
qed (auto simp: get_focus_def get_next_def get_prev_def set_focus_def split_focus_def
      combine_focus_with_prev_def combine_focus_with_next_def cut_to_clipboard_def
      paste_from_clipboard_def clear_clipboard_def Let_def alloc_def
      split: sum.splits option.splits prod.splits if_splits dest: get_at_pos_closed)

lemma run_closed:
  "run w cs = Inr w' \<Longrightarrow> file_obj w = None \<Longrightarrow> file_obj w' = None"
  by (induction cs arbitrary: w) (auto split: sum.splits dest: step_closed)

text \<open>
  Claim C7.  Let \<open>data\<close> be what the underlying \<^verbatim>\<open>readline\<close> returns and \<open>rest\<close> what it
  leaves.  If \<open>data\<close> is empty or does not end in the line terminator, \<open>read_next_line\<close>
  returns \<open>data\<close> as read and drops the file object.  Otherwise it returns \<open>data\<close> without
  its last character, which is the only terminator in \<open>data\<close>, and the file stays open on
  \<open>rest\<close>.  Once the file object is dropped, a further \<open>read_next_line\<close> is an error, a
  request for the position after the last line yields no line, and no sequence of
  operations brings the file object back.
\<close>

theorem read_next_line_contract:
  "(file_obj w = Some content \<and> readline content = (data, rest) \<longrightarrow>
      data @ rest = content \<and> nl \<notin> set (butlast data) \<and>
      (data = [] \<or> last data \<noteq> nl \<longrightarrow>
         (\<exists>w'. read_next_line w = Inr (data, w') \<and> file_obj w' = None)) \<and>
      (data \<noteq> [] \<and> last data = nl \<longrightarrow>
         (\<exists>w'. read_next_line w = Inr (butlast data, w') \<and> butlast data @ [nl] = data \<and>
               file_obj w' = Some rest))) \<and>
   (file_obj w = None \<longrightarrow>
      read_next_line w = Inl AttributeError \<and>
      get_at_pos w (int (length (lines w))) = Inr (None, w) \<and>
      (\<forall>cs w'. run w cs = Inr w' \<longrightarrow> file_obj w' = None))"
proof (intro conjI impI)
  assume a: "file_obj w = Some content \<and> readline content = (data, rest)"
  then show "data @ rest = content" by (simp add: readline_append)
  from a show "nl \<notin> set (butlast data)" using readline_no_nl by blast
  {
    assume "data = [] \<or> last data \<noteq> nl"
    then show "\<exists>w'. read_next_line w = Inr (data, w') \<and> file_obj w' = None"
      using a by (auto simp: read_next_line_def Let_def alloc_def)
  }
  {
    assume "data \<noteq> [] \<and> last data = nl"
    then show "\<exists>w'. read_next_line w = Inr (butlast data, w') \<and> butlast data @ [nl] = data \<and>
               file_obj w' = Some rest"
      using a append_butlast_last_id [of data]
      by (auto simp: read_next_line_def Let_def alloc_def)
  }
next
  assume "file_obj w = None"
  then show "read_next_line w = Inl AttributeError" by (simp add: read_next_line_def)
  assume "file_obj w = None"
  then show "get_at_pos w (int (length (lines w))) = Inr (None, w)"
    by (simp add: get_at_pos_def)
  assume "file_obj w = None"
  then show "\<forall>cs w'. run w cs = Inr w' \<longrightarrow> file_obj w' = None"
    using run_closed by blast
qed

theorem read_next_line_contract_witness:
  "(\<exists>w'. read_next_line (LineWalker (''ab'' @ [nl] @ ''c'')) = Inr (''ab'', w') \<and>
         file_obj w' = Some ''c'') \<and>
   (\<exists>w'. read_next_line (LineWalker ''c'') = Inr (''c'', w') \<and> file_obj w' = None) \<and>
   read_next_line ((LineWalker [])\<lparr>file_obj := None\<rparr>) = Inl AttributeError"
  using read_next_line_contract [of "LineWalker (''ab'' @ [nl] @ ''c'')"
          "''ab'' @ [nl] @ ''c''" "''ab'' @ [nl]" "''c''"]
        read_next_line_contract [of "LineWalker ''c''" "''c''" "''c''" "[]"]
        read_next_line_contract [of "(LineWalker [])\<lparr>file_obj := None\<rparr>"]
  by (simp add: LineWalker_def nl_def cr_def)

section \<open>Navigation at the boundaries\<close>

text \<open>
  Claim C6, as the code has it.  A request for a negative position, or for a position at
  or beyond the number of materialized lines when the file object is gone, returns the
  "no line" result and leaves the whole walker, so its lines and its focus, unchanged.  A
  request beyond the number of materialized lines while the file is still open fails the
  assertion of \<^verbatim>\<open>_get_at_pos\<close> instead of returning.
\<close>

theorem get_at_no_line:
  "(pos < 0 \<or> (int (length (lines w)) \<le> pos \<and> file_obj w = None)
      \<longrightarrow> get_at_pos w pos = Inr (None, w)) \<and>
   (int (length (lines w)) < pos \<and> file_obj w \<noteq> None
      \<longrightarrow> get_at_pos w pos = Inl AssertionError)"
  by (auto simp: get_at_pos_def)

theorem get_at_no_line_witness:
  "get_at_pos (LineWalker ''a'') (- 1) = Inr (None, LineWalker ''a'') \<and>
   get_at_pos ((LineWalker ''a'')\<lparr>file_obj := None\<rparr>) 0
     = Inr (None, (LineWalker ''a'')\<lparr>file_obj := None\<rparr>) \<and>
   get_at_pos (LineWalker ''a'') 1 = Inl AssertionError"
  using get_at_no_line [of "- 1" "LineWalker ''a''"]
        get_at_no_line [of 0 "(LineWalker ''a'')\<lparr>file_obj := None\<rparr>"]
        get_at_no_line [of 1 "LineWalker ''a''"]
  by (simp add: LineWalker_def)

text \<open>
  The claim as the specification words it fails on a fresh buffer over a three-line file:
  position 2 is beyond the materialized lines, and the result is the failed assertion, not
  "no line".
\<close>

theorem get_at_beyond_open_counterexample:
  "int (length (lines (LineWalker (''a'' @ [nl] @ ''b'' @ [nl] @ ''c'')))) < 2 \<and>
   get_at_pos (LineWalker (''a'' @ [nl] @ ''b'' @ [nl] @ ''c'')) 2 = Inl AssertionError \<and>
   get_at_pos (LineWalker (''a'' @ [nl] @ ''b'' @ [nl] @ ''c'')) 2
     \<noteq> Inr (None, LineWalker (''a'' @ [nl] @ ''b'' @ [nl] @ ''c''))"
  by (simp add: get_at_pos_def LineWalker_def)

section \<open>Cutting the only line\<close>

text \<open>
  Claim C10.  On a buffer with exactly one line, \<open>cut_to_clipboard\<close> returns exactly when
  the focus selects that line (index 0, or -1 counted from the end); it then leaves no
  lines and the focus -1, and \<open>get_coords\<close> on that state raises \<^verbatim>\<open>IndexError\<close>.  With any
  other focus the cut itself raises \<^verbatim>\<open>IndexError\<close>.
\<close>

theorem cut_single_line:
  "length (lines w) = 1 \<Longrightarrow>
     (case cut_to_clipboard w of
        Inl e \<Rightarrow> e = IndexError \<and> focus w \<noteq> 0 \<and> focus w \<noteq> - 1
      | Inr w' \<Rightarrow> (focus w = 0 \<or> focus w = - 1) \<and> lines w' = [] \<and> focus w' = - 1 \<and>
                  get_coords w' = Inl IndexError)"
  by (cases "lines w")
     (auto simp: cut_to_clipboard_def py_pop_def py_index_def Let_def set_focus_def
        get_coords_def py_getitem_def split: if_splits)

theorem cut_single_line_witness:
  "length (lines \<lparr>store = [\<lparr>edit_text = ''abcd'', edit_pos = 0, original_text = ''abcd''\<rparr>],
                  file_obj = None, lines = [0], focus = 0, clipboard = None\<rparr>) = 1 \<and>
   (\<exists>w'. cut_to_clipboard
           \<lparr>store = [\<lparr>edit_text = ''abcd'', edit_pos = 0, original_text = ''abcd''\<rparr>],
            file_obj = None, lines = [0], focus = 0, clipboard = None\<rparr> = Inr w' \<and>
         lines w' = [] \<and> focus w' = - 1 \<and> get_coords w' = Inl IndexError)"
  using cut_single_line
    [of "\<lparr>store = [\<lparr>edit_text = ''abcd'', edit_pos = 0, original_text = ''abcd''\<rparr>],
          file_obj = None, lines = [0], focus = 0, clipboard = None\<rparr>"]
  by (auto split: sum.splits)

section \<open>The original text of a line\<close>

lemma keeps_refl [simp]: "keeps_originals h h"
  by (simp add: keeps_originals_def)

lemma keeps_trans: "keeps_originals h h' \<Longrightarrow> keeps_originals h' h'' \<Longrightarrow> keeps_originals h h''"
  by (auto simp: keeps_originals_def)

lemma keeps_append: "keeps_originals h h' \<Longrightarrow> keeps_originals h (h' @ [e])"
  by (auto simp: keeps_originals_def nth_append)

lemma keeps_upd:
  "keeps_originals h h' \<Longrightarrow>
   length h \<le> a \<or> original_text (f (h' ! a)) = original_text (h' ! a) \<Longrightarrow>
   keeps_originals h (upd h' a f)"
  by (cases "a < length h'") (auto simp: keeps_originals_def upd_def nth_list_update)

lemma set_edit_orig [simp]:
  "original_text (set_edit_pos e p) = original_text e"
  "original_text (set_edit_text e t) = original_text e"
  by (simp_all add: set_edit_pos_def set_edit_text_def)

lemma read_next_line_keeps:
  "read_next_line w = Inr (x, w') \<Longrightarrow> keeps_originals (store w) (store w')"
  by (auto simp: read_next_line_def Let_def alloc_def split: option.splits prod.splits
        intro!: keeps_upd keeps_append)

lemma get_at_pos_keeps:
  "get_at_pos w pos = Inr (r, w') \<Longrightarrow> keeps_originals (store w) (store w')"
  by (auto simp: get_at_pos_def split: if_splits sum.splits dest: read_next_line_keeps)

lemma split_focus_keeps:
  "split_focus w = Inr w' \<Longrightarrow> keeps_originals (store w) (store w')"
  by (auto simp: split_focus_def Let_def alloc_def split: sum.splits
        intro!: keeps_upd keeps_append)

lemma combine_prev_keeps:
  "combine_focus_with_prev w = Inr w' \<Longrightarrow> keeps_originals (store w) (store w')"
  by (auto simp: combine_focus_with_prev_def get_prev_def Let_def
        split: sum.splits option.splits
        dest!: get_at_pos_keeps intro!: keeps_upd elim: keeps_trans)

lemma combine_next_keeps:
  "combine_focus_with_next w = Inr w' \<Longrightarrow> keeps_originals (store w) (store w')"
  by (auto simp: combine_focus_with_next_def get_next_def Let_def
        split: sum.splits option.splits
        dest!: get_at_pos_keeps intro!: keeps_upd elim: keeps_trans)

lemma paste_line_keeps: "keeps_originals (store w) (store (paste_line a w))"
  by (auto simp: paste_line_def Let_def alloc_def intro!: keeps_upd keeps_append)

lemma fold_paste_line_keeps: "keeps_originals (store w) (store (fold paste_line cb w))"
proof (induction cb arbitrary: w)
  case Nil
  show ?case by simp
next
  case (Cons a cb)
  show ?case using keeps_trans [OF paste_line_keeps Cons.IH] by simp
qed

lemma read_rest_keeps:
  "read_rest w l = Inr (l', w') \<Longrightarrow> keeps_originals (store w) (store w')"
proof (induction w l rule: read_rest.induct)
  case (1 w l)
  show ?case
  proof (cases "file_obj w = None")
    case True
    with "1.prems" show ?thesis by (simp add: read_rest.simps)
  next
    case False
    with "1.prems" obtain x w1 where rd: "read_next_line w = Inr (x, w1)"
      and rest: "read_rest w1 (l @ [x]) = Inr (l', w')"
      by (auto simp: read_rest.simps [of w l] split: sum.splits)
    from "1.IH" [OF False rd refl rest] read_next_line_keeps [OF rd]
    show ?thesis by (blast intro: keeps_trans)
  qed
qed

lemma step_keeps: "step w c = Inr w' \<Longrightarrow> keeps_originals (store w) (store w')"
  by (cases c)
     (auto simp: get_focus_def get_next_def get_prev_def set_focus_def get_coords_def
        cut_to_clipboard_def paste_from_clipboard_def clear_clipboard_def save_file_def Let_def
        fold_paste_line_keeps
        split: sum.splits option.splits
        dest: get_at_pos_keeps split_focus_keeps combine_prev_keeps combine_next_keeps
          read_rest_keeps)

lemma run_keeps: "run w cs = Inr w' \<Longrightarrow> keeps_originals (store w) (store w')"
proof (induction cs arbitrary: w)
  case Nil
  then show ?case by simp
next
  case (Cons c cs)
  then obtain w1 where "step w c = Inr w1" "run w1 cs = Inr w'"
    by (auto split: sum.splits)
  then show ?case using Cons.IH step_keeps keeps_trans by blast
qed

text \<open>
  Claim C8.  Whatever sequence of operations runs (navigation, split, join, cut, paste,
  clearing the clipboard, save), every widget that existed before still exists afterwards
  with the same \<^verbatim>\<open>original_text\<close>; this covers in particular the widgets whose
  \<^verbatim>\<open>original_text\<close> was read from the source.
\<close>

theorem original_text_never_changes:
  "run w cs = Inr w' \<Longrightarrow>
   length (store w) \<le> length (store w') \<and>
   (\<forall>a<length (store w). original_text (store w' ! a) = original_text (store w ! a))"
  using run_keeps [of w cs w'] by (simp add: keeps_originals_def)

theorem original_text_never_changes_witness:
  "\<exists>w'. run \<lparr>store = [\<lparr>edit_text = ''a       b'', edit_pos = 1, original_text = ''a'' @ [tab] @ ''b''\<rparr>],
              file_obj = Some ''c'', lines = [0], focus = 0, clipboard = None\<rparr>
            [SplitFocus, CutToClipboard, PasteFromClipboard, CombineFocusWithNext, SaveFile] = Inr w' \<and>
        original_text (store w' ! 0) = ''a'' @ [tab] @ ''b''"
proof -
  let ?W = "\<lparr>store = [\<lparr>edit_text = ''a       b'', edit_pos = 1, original_text = ''a'' @ [tab] @ ''b''\<rparr>],
              file_obj = Some ''c'', lines = [0], focus = 0, clipboard = None\<rparr>"
  let ?cs = "[SplitFocus, CutToClipboard, PasteFromClipboard, CombineFocusWithNext, SaveFile]"
  have "case run ?W ?cs of Inl _ \<Rightarrow> False | Inr _ \<Rightarrow> True"
    by code_simp
  then obtain w' where r: "run ?W ?cs = Inr w'"
    by (auto split: sum.splits)
  from original_text_never_changes [OF r] show ?thesis
    using r by simp
qed

section \<open>The line after a final terminator\<close>

lemma readline_nl:
  "nl \<in> set c \<Longrightarrow> readline c = (d, r) \<Longrightarrow>
   d \<noteq> [] \<and> last d = nl \<and> count_list c nl = Suc (count_list r nl) \<and>
   (r = [] \<or> last r = last c)"
  by (induction c arbitrary: d r) (auto split: if_splits prod.splits)

lemma get_at_pos_next:
  "file_obj w = Some c \<Longrightarrow> readline c = (d, r) \<Longrightarrow>
   get_at_pos w (int (length (lines w))) =
     Inr (Some (length (store w), int (length (lines w))),
          w\<lparr>file_obj := (if d = [] \<or> last d \<noteq> nl then None else Some r),
            store := store w @
              [\<lparr>edit_text = expandtabs (if d = [] \<or> last d \<noteq> nl then d else butlast d),
                edit_pos = 0,
                original_text = (if d = [] \<or> last d \<noteq> nl then d else butlast d)\<rparr>],
            lines := lines w @ [length (store w)]\<rparr>)"
  by (simp add: get_at_pos_def read_next_line_def Let_def alloc_def upd_def
        HighlightedEdit_def set_edit_pos_def py_getitem_def py_index_def)

lemma materialize_all:
  "file_obj w = Some c \<Longrightarrow> c = [] \<or> last c = nl \<Longrightarrow> count_list c nl = n \<Longrightarrow>
   \<exists>w'. materialize n w = Inr w' \<and> file_obj w' = Some [] \<and>
        length (lines w') = length (lines w) + n"
proof (induction n arbitrary: w c)
  case 0
  then have "c = []" by (cases c rule: rev_cases) auto
  with 0 show ?case by simp
next
  case (Suc n)
  then have c: "c \<noteq> []" "last c = nl" by auto
  then have mem: "nl \<in> set c" using last_in_set by metis
  obtain d r where dr: "readline c = (d, r)" by (cases "readline c")
  note f = readline_nl [OF mem dr]
  let ?w1 = "w\<lparr>file_obj := Some r,
            store := store w @ [\<lparr>edit_text = expandtabs (butlast d), edit_pos = 0,
                                 original_text = butlast d\<rparr>],
            lines := lines w @ [length (store w)]\<rparr>"
  have g: "get_at_pos w (int (length (lines w))) =
      Inr (Some (length (store w), int (length (lines w))), ?w1)"
    using get_at_pos_next [OF Suc.prems(1) dr] f by simp
  have "file_obj ?w1 = Some r" by simp
  moreover have "r = [] \<or> last r = nl" using f c by auto
  moreover have "count_list r nl = n" using f Suc.prems(3) by simp
  ultimately obtain w' where "materialize n ?w1 = Inr w'" "file_obj w' = Some []"
    "length (lines w') = length (lines ?w1) + n"
    using Suc.IH by blast
  then show ?case using g by simp
qed

text \<open>
  Claim C9.  Let \<open>delivered\<close>, the text that the file object delivers for the file, be
  non-empty and end with a line terminator (for a file without carriage returns \<open>delivered\<close> is
  the content of the file), and let the list box have asked for its lines in order, one
  request per terminator.  The requests succeed and leave the file open with nothing to
  read.  The next request, one
  position past the last content line, returns a line and not "no line": it appends a new
  widget with empty text and empty \<^verbatim>\<open>original_text\<close>, returns it with the requested
  position, and drops the file object.
\<close>

theorem trailing_terminator_line:
  "universal_newlines content = delivered \<Longrightarrow> delivered \<noteq> [] \<Longrightarrow> last delivered = nl \<Longrightarrow>
   \<exists>w. materialize (count_list delivered nl) (LineWalker content) = Inr w \<and>
       length (lines w) = count_list delivered nl \<and> file_obj w = Some [] \<and>
       get_at_pos w (int (length (lines w))) =
         Inr (Some (length (store w), int (length (lines w))),
              w\<lparr>file_obj := None,
                store := store w @ [\<lparr>edit_text = [], edit_pos = 0, original_text = []\<rparr>],
                lines := lines w @ [length (store w)]\<rparr>)"
proof -
  assume "universal_newlines content = delivered" "delivered \<noteq> []" "last delivered = nl"
  then obtain w where w: "materialize (count_list delivered nl) (LineWalker content) = Inr w"
    "file_obj w = Some []"
    "length (lines w) = length (lines (LineWalker content)) + count_list delivered nl"
    using materialize_all [of "LineWalker content" delivered "count_list delivered nl"]
    by (auto simp: LineWalker_def)
  have "get_at_pos w (int (length (lines w))) =
         Inr (Some (length (store w), int (length (lines w))),
              w\<lparr>file_obj := None,
                store := store w @ [\<lparr>edit_text = [], edit_pos = 0, original_text = []\<rparr>],
                lines := lines w @ [length (store w)]\<rparr>)"
    using get_at_pos_next [OF w(2), of "[]" "[]"] by (simp add: expandtabs_def)
  with w show ?thesis by (auto simp: LineWalker_def)
qed

theorem trailing_terminator_line_witness:
  "\<exists>w. materialize 2 (LineWalker (''a'' @ [nl] @ ''b'' @ [nl])) = Inr w \<and>
       length (lines w) = 2 \<and> file_obj w = Some [] \<and>
       get_at_pos w 2 =
         Inr (Some (length (store w), 2),
              w\<lparr>file_obj := None,
                store := store w @ [\<lparr>edit_text = [], edit_pos = 0, original_text = []\<rparr>],
                lines := lines w @ [length (store w)]\<rparr>)"
proof -
  have c: "count_list (''a'' @ [nl] @ ''b'' @ [nl]) nl = 2"
    by (simp add: nl_def)
  have u: "universal_newlines (''a'' @ [nl] @ ''b'' @ [nl]) = ''a'' @ [nl] @ ''b'' @ [nl]"
    by (rule universal_newlines_id) (simp add: cr_def nl_def)
  have h: "''a'' @ [nl] @ ''b'' @ [nl] \<noteq> []" "last (''a'' @ [nl] @ ''b'' @ [nl]) = nl"
    by simp_all
  from trailing_terminator_line [OF u h] show ?thesis
    unfolding c by (auto simp del: materialize.simps)
qed

section \<open>Splitting and joining\<close>

lemma nat_int_Suc [simp]: "nat (int f + 1) = Suc f"
  by simp

lemma py_getitem_nat [simp]:
  "0 \<le> i \<Longrightarrow> i < int (length xs) \<Longrightarrow> py_getitem xs i = Inr (xs ! nat i)"
  by (simp add: py_getitem_def py_index_def)

lemma py_delitem_nat [simp]:
  "0 \<le> i \<Longrightarrow> i < int (length xs) \<Longrightarrow>
   py_delitem xs i = Inr (take (nat i) xs @ drop (Suc (nat i)) xs)"
  by (simp add: py_delitem_def py_index_def)

lemma py_pop_nat [simp]:
  "0 \<le> i \<Longrightarrow> i < int (length xs) \<Longrightarrow>
   py_pop xs i = Inr (xs ! nat i, take (nat i) xs @ drop (Suc (nat i)) xs)"
  by (simp add: py_pop_def py_index_def)

lemma py_insert_nat [simp]:
  "0 \<le> i \<Longrightarrow> i \<le> int (length xs) \<Longrightarrow> py_insert xs i x = take (nat i) xs @ x # drop (nat i) xs"
  by (simp add: py_insert_def Let_def min_def)

lemma split_focus_at:
  assumes f: "focus w = int f" "f < length (lines w)"
    and a: "lines w ! f < length (store w)"
  shows "split_focus w =
     Inr (w\<lparr>store := (store w)[lines w ! f :=
                 set_edit_text (store w ! (lines w ! f))
                   (take (edit_pos (store w ! (lines w ! f))) (edit_text (store w ! (lines w ! f))))]
               @ [\<lparr>edit_text = drop (edit_pos (store w ! (lines w ! f)))
                                  (edit_text (store w ! (lines w ! f))),
                   edit_pos = 0, original_text = []\<rparr>],
            lines := take (Suc f) (lines w) @ length (store w) # drop (Suc f) (lines w)\<rparr>)"
  using f a
  by (simp add: split_focus_def Let_def alloc_def upd_def HighlightedEdit_def
        set_edit_pos_def nth_append list_update_append)

text \<open>
  Claim C5, as the code has it.  Let every reference be valid and the focus be an index of
  \<open>lines\<close>.  Then \<open>split_focus\<close> followed immediately by \<open>combine_focus_with_next\<close> returns
  and restores the text of every line, the focused one included, with the same lines and
  focus.  \<open>split_focus\<close> leaves the focus on the left half, so the join with the previous
  line restores the text when the focus is first moved to the new line (as the host shell
  does on the enter key): \<open>split_focus\<close>, \<open>set_focus\<close> to the next index, then
  \<open>combine_focus_with_prev\<close> returns and restores every text, the lines and the focus.
\<close>

theorem split_then_join:
  assumes v: "valid_refs w" and f0: "0 \<le> focus w" and f1: "focus w < int (length (lines w))"
  shows "(\<exists>w1 w2. split_focus w = Inr w1 \<and> combine_focus_with_next w1 = Inr w2 \<and>
            texts w2 = texts w \<and> lines w2 = lines w \<and> focus w2 = focus w) \<and>
         (\<exists>w1 w2. split_focus w = Inr w1 \<and>
            combine_focus_with_prev (set_focus w1 (focus w + 1)) = Inr w2 \<and>
            texts w2 = texts w \<and> lines w2 = lines w \<and> focus w2 = focus w)"
proof -
  obtain f where f: "focus w = int f" "f < length (lines w)"
    using f0 f1 by (metis nat_less_iff zero_le_imp_eq_int nat_int)
  let ?a = "lines w ! f"
  let ?b = "length (store w)"
  have all: "list_all (\<lambda>x. x < length (store w)) (lines w)"
    using v by (simp add: valid_refs_def)
  then have a: "?a < ?b" using f by (simp add: list_all_length)
  note sp = split_focus_at [OF f a]
  obtain w1 where w1: "split_focus w = Inr w1"
    and st1: "store w1 = (store w)[?a := set_edit_text (store w ! ?a)
                   (take (edit_pos (store w ! ?a)) (edit_text (store w ! ?a)))]
               @ [\<lparr>edit_text = drop (edit_pos (store w ! ?a)) (edit_text (store w ! ?a)),
                   edit_pos = 0, original_text = []\<rparr>]"
    and ln1: "lines w1 = take (Suc f) (lines w) @ ?b # drop (Suc f) (lines w)"
    and fc1: "focus w1 = int f" and fl1: "file_obj w1 = file_obj w"
    using sp f by simp
  have len1: "Suc f < length (lines w1)" "f < length (lines w1)" using ln1 f by simp_all
  have nf: "lines w1 ! f = ?a" using ln1 f by (simp add: nth_append)
  have nb: "lines w1 ! Suc f = ?b" using ln1 f by (simp add: nth_append)
  have del: "take (Suc f) (lines w1) @ drop (Suc (Suc f)) (lines w1) = lines w"
    using ln1 f by simp
  have ta: "edit_text (store w1 ! ?a) = take (edit_pos (store w ! ?a)) (edit_text (store w ! ?a))"
    using st1 a by (simp add: nth_append set_edit_text_def)
  have tb: "edit_text (store w1 ! ?b) = drop (edit_pos (store w ! ?a)) (edit_text (store w ! ?a))"
    using st1 by (simp add: nth_append)
  have ab: "?a < length (store w1)" using st1 a by simp
  have other: "x < ?b \<Longrightarrow> x \<noteq> ?a \<Longrightarrow> edit_text (store w1 ! x) = edit_text (store w ! x)" for x
    using st1 by (simp add: nth_append)
  have restore: "map (\<lambda>x. edit_text (((store w1)[?a := e]) ! x)) (lines w) = texts w"
    if "edit_text e = edit_text (store w ! ?a)" for e
    unfolding texts_def
  proof (rule map_cong [OF refl])
    fix x assume "x \<in> set (lines w)"
    then have "x < ?b" using all by (simp add: list_all_iff)
    then show "edit_text (((store w1)[?a := e]) ! x) = edit_text (store w ! x)"
      using that other ab by (cases "x = ?a") simp_all
  qed
  have gn: "get_at_pos w1 (int f + 1) = Inr (Some (?b, int f + 1), w1)"
    using len1 nb by (simp add: get_at_pos_def)
  have next_ok: "\<exists>w2. combine_focus_with_next w1 = Inr w2 \<and>
            texts w2 = texts w \<and> lines w2 = lines w \<and> focus w2 = focus w"
  proof -
    have d: "py_delitem (lines w1) (int f + 1) = Inr (lines w)"
      using len1 del by simp
    show ?thesis
      using gn len1 nf d fc1 f
      by (simp add: combine_focus_with_next_def get_next_def Let_def upd_def texts_def
            restore set_edit_text_def ta tb)
  qed
  let ?w1' = "set_focus w1 (focus w + 1)"
  have gp: "get_at_pos ?w1' (int f) = Inr (Some (?a, int f), ?w1')"
    using len1 nf by (simp add: get_at_pos_def set_focus_def)
  have prev_ok: "\<exists>w2. combine_focus_with_prev ?w1' = Inr w2 \<and>
            texts w2 = texts w \<and> lines w2 = lines w \<and> focus w2 = focus w"
  proof -
    have fc: "focus ?w1' = int f + 1" using f by (simp add: set_focus_def)
    have ls: "lines ?w1' = lines w1" "store ?w1' = store w1" by (simp_all add: set_focus_def)
    have gp': "get_prev ?w1' (focus ?w1') = Inr (Some (?a, int f), ?w1')"
      using gp fc by (simp add: get_prev_def)
    have ne: "?a \<noteq> ?b" using a by simp
    show ?thesis
      unfolding combine_focus_with_prev_def gp'
      using len1 nb del f ne ab
      by (simp add: set_focus_def Let_def upd_def texts_def restore set_edit_text_def
            set_edit_pos_def ta tb)
  qed
  from w1 next_ok prev_ok show ?thesis by simp
qed

theorem split_then_join_witness:
  "valid_refs \<lparr>store = [\<lparr>edit_text = ''xy'', edit_pos = 0, original_text = ''xy''\<rparr>,
                        \<lparr>edit_text = ''abcd'', edit_pos = 2, original_text = ''abcd''\<rparr>],
               file_obj = None, lines = [0, 1], focus = 1, clipboard = None\<rparr> \<and>
   (\<exists>w1 w2. split_focus \<lparr>store = [\<lparr>edit_text = ''xy'', edit_pos = 0, original_text = ''xy''\<rparr>,
                        \<lparr>edit_text = ''abcd'', edit_pos = 2, original_text = ''abcd''\<rparr>],
               file_obj = None, lines = [0, 1], focus = 1, clipboard = None\<rparr> = Inr w1 \<and>
      combine_focus_with_next w1 = Inr w2 \<and> texts w2 = [''xy'', ''abcd'']) \<and>
   (\<exists>w1 w2. split_focus \<lparr>store = [\<lparr>edit_text = ''xy'', edit_pos = 0, original_text = ''xy''\<rparr>,
                        \<lparr>edit_text = ''abcd'', edit_pos = 2, original_text = ''abcd''\<rparr>],
               file_obj = None, lines = [0, 1], focus = 1, clipboard = None\<rparr> = Inr w1 \<and>
      combine_focus_with_prev (set_focus w1 2) = Inr w2 \<and> texts w2 = [''xy'', ''abcd''])"
proof -
  let ?W = "\<lparr>store = [\<lparr>edit_text = ''xy'', edit_pos = 0, original_text = ''xy''\<rparr>,
                        \<lparr>edit_text = ''abcd'', edit_pos = 2, original_text = ''abcd''\<rparr>],
               file_obj = None, lines = [0, 1], focus = 1, clipboard = None\<rparr>"
  have v: "valid_refs ?W" "0 \<le> focus ?W" "focus ?W < int (length (lines ?W))"
    by (simp_all add: valid_refs_def)
  from split_then_join [OF v] obtain a1 a2 b1 b2 where
    A: "split_focus ?W = Inr a1" "combine_focus_with_next a1 = Inr a2" "texts a2 = texts ?W"
    and B: "split_focus ?W = Inr b1"
      "combine_focus_with_prev (set_focus b1 (focus ?W + 1)) = Inr b2" "texts b2 = texts ?W"
    by blast
  have tw: "texts ?W = [''xy'', ''abcd'']" by (simp add: texts_def)
  have fw: "focus ?W + 1 = 2" by simp
  from A B show ?thesis unfolding tw fw using v(1) by blast
qed

text \<open>
  The claim as the specification words it, with \<open>combine_focus_with_prev\<close> called
  immediately after \<open>split_focus\<close>, fails: with the focus on the second line \<open>abcd\<close> and
  the cursor after \<open>ab\<close>, the left half is joined to the line above and no line has the
  text \<open>abcd\<close>; with the focus on the first line the join does nothing and the two halves
  stay apart.
\<close>

theorem split_then_join_prev_counterexample:
  "map_sum id texts
     (run \<lparr>store = [\<lparr>edit_text = ''xy'', edit_pos = 0, original_text = ''xy''\<rparr>,
                    \<lparr>edit_text = ''abcd'', edit_pos = 2, original_text = ''abcd''\<rparr>],
           file_obj = None, lines = [0, 1], focus = 1, clipboard = None\<rparr>
        [SplitFocus, CombineFocusWithPrev]) = Inr [''xyab'', ''cd''] \<and>
   map_sum id texts
     (run \<lparr>store = [\<lparr>edit_text = ''abcd'', edit_pos = 2, original_text = ''abcd''\<rparr>],
           file_obj = None, lines = [0], focus = 0, clipboard = None\<rparr>
        [SplitFocus, CombineFocusWithPrev]) = Inr [''ab'', ''cd'']"
  by code_simp

section \<open>The clipboard\<close>

lemma paste_single:
  assumes cb: "clipboard w = Some [a]"
  shows "store (paste_from_clipboard w) =
           store w @ [\<lparr>edit_text = edit_text (store w ! a),
                          edit_pos = length (edit_text (store w ! a)),
                          original_text = []\<rparr>]"
    and "lines (paste_from_clipboard w) = py_insert (lines w) (focus w) (length (store w))"
    and "focus (paste_from_clipboard w) = focus w + 1"
    and "clipboard (paste_from_clipboard w) = Some [a]"
  using cb
  by (simp_all add: paste_from_clipboard_def paste_line_def Let_def alloc_def upd_def
        HighlightedEdit_def set_focus_def)

lemma texts_replaced:
  assumes all: "list_all (\<lambda>x. x < length h) ls" and f: "f < length ls"
    and e: "edit_text e = edit_text (h ! (ls ! f))"
  shows "map (\<lambda>x. edit_text ((h @ [e]) ! x)) (take f ls @ length h # drop (Suc f) ls)
       = map (\<lambda>x. edit_text (h ! x)) ls"
proof -
  have old: "x \<in> set ls \<Longrightarrow> edit_text ((h @ [e]) ! x) = edit_text (h ! x)" for x
    using all by (simp add: list_all_iff nth_append)
  have "map (\<lambda>x. edit_text ((h @ [e]) ! x)) (take f ls @ length h # drop (Suc f) ls)
      = map (\<lambda>x. edit_text (h ! x)) (take f ls) @ edit_text (h ! (ls ! f))
          # map (\<lambda>x. edit_text (h ! x)) (drop (Suc f) ls)"
    using e by (auto simp: old dest: in_set_takeD in_set_dropD)
  also have "\<dots> = map (\<lambda>x. edit_text (h ! x)) (take f ls @ ls ! f # drop (Suc f) ls)"
    by simp
  also have "take f ls @ ls ! f # drop (Suc f) ls = ls"
    using f by (simp add: id_take_nth_drop [symmetric])
  finally show ?thesis .
qed

text \<open>
  Claim C3, as the code has it.  Let every reference be valid, the focus be an index of
  \<open>lines\<close>, and the clipboard be absent or empty.  Then \<open>cut_to_clipboard\<close> returns and the
  clipboard holds exactly the cut line.  Pasting with the focus at the position of the cut
  restores the text of every line (so also the number of lines) and leaves the clipboard as
  it was after the cut.  The focus is still at that position right after the cut unless
  the cut line was the last of several; so when the cut line was not the last, or was the
  only line, the paste immediately after the cut restores the texts as well.
\<close>

theorem cut_then_paste:
  assumes v: "valid_refs w" and f0: "0 \<le> focus w" and f1: "focus w < int (length (lines w))"
    and cb: "clipboard w = None \<or> clipboard w = Some []"
  shows "\<exists>w1. cut_to_clipboard w = Inr w1 \<and>
           clipboard w1 = Some [lines w ! nat (focus w)] \<and>
           texts (paste_from_clipboard (set_focus w1 (focus w))) = texts w \<and>
           clipboard (paste_from_clipboard (set_focus w1 (focus w))) = clipboard w1 \<and>
           (focus w + 1 < int (length (lines w)) \<or> length (lines w) = 1 \<longrightarrow>
              texts (paste_from_clipboard w1) = texts w \<and>
              clipboard (paste_from_clipboard w1) = clipboard w1)"
proof -
  obtain f where f: "focus w = int f" "f < length (lines w)"
    using f0 f1 by (metis nat_less_iff zero_le_imp_eq_int nat_int)
  let ?a = "lines w ! f"
  let ?ls1 = "take f (lines w) @ drop (Suc f) (lines w)"
  let ?f1 = "if int f = int (length ?ls1) then int f - 1 else int f"
  let ?w1 = "w\<lparr>clipboard := Some [?a], lines := ?ls1, focus := ?f1\<rparr>"
  have all: "list_all (\<lambda>x. x < length (store w)) (lines w)"
    using v by (simp add: valid_refs_def)
  have cut: "cut_to_clipboard w = Inr ?w1"
    using f cb by (auto simp: cut_to_clipboard_def Let_def set_focus_def)
  have len1: "length ?ls1 = length (lines w) - 1" using f by simp
  have ins: "py_insert ?ls1 (int f) b = take f (lines w) @ b # drop (Suc f) (lines w)" for b
    using f by (simp add: min_def)
  let ?new = "\<lparr>edit_text = edit_text (store w ! ?a),
               edit_pos = length (edit_text (store w ! ?a)), original_text = []\<rparr>"
  have tx: "map (\<lambda>x. edit_text ((store w @ [?new]) ! x))
              (take f (lines w) @ length (store w) # drop (Suc f) (lines w)) = texts w"
    using texts_replaced [OF all f(2), of ?new] by (simp add: texts_def)
  have pasted: "texts (paste_from_clipboard v) = texts w \<and> clipboard (paste_from_clipboard v) = Some [?a]"
    if "clipboard v = Some [?a]" "store v = store w"
      "py_insert (lines v) (focus v) (length (store w)) =
         take f (lines w) @ length (store w) # drop (Suc f) (lines w)" for v
    using paste_single [OF that(1)] that(2,3) tx by (simp add: texts_def)
  have again: "texts (paste_from_clipboard (set_focus ?w1 (int f))) = texts w \<and>
      clipboard (paste_from_clipboard (set_focus ?w1 (int f))) = Some [?a]"
    by (rule pasted) (simp_all add: set_focus_def ins)
  have imm: "texts (paste_from_clipboard ?w1) = texts w \<and>
      clipboard (paste_from_clipboard ?w1) = Some [?a]"
    if "focus w + 1 < int (length (lines w)) \<or> length (lines w) = 1"
  proof (cases "length (lines w) = 1")
    case True
    then have f_0: "f = 0" using f by simp
    have i3: "py_insert [] (- 1) b = [b]" for b :: nat
      by (simp add: py_insert_def)
    have l1: "lines ?w1 = []" using True f_0 by simp
    have f1: "focus ?w1 = - 1" using True f_0 by simp
    have r: "take f (lines w) @ length (store w) # drop (Suc f) (lines w) = [length (store w)]"
      using True f_0 by simp
    show ?thesis
    proof (rule pasted)
      show "clipboard ?w1 = Some [?a]" by simp
      show "store ?w1 = store w" by simp
      show "py_insert (lines ?w1) (focus ?w1) (length (store w)) =
         take f (lines w) @ length (store w) # drop (Suc f) (lines w)"
        unfolding l1 f1 r by (rule i3)
    qed
  next
    case False
    with that f have ne: "int f \<noteq> int (length ?ls1)" by auto
    show ?thesis
    proof (rule pasted)
      show "clipboard ?w1 = Some [?a]" by simp
      show "store ?w1 = store w" by simp
      show "py_insert (lines ?w1) (focus ?w1) (length (store w)) =
         take f (lines w) @ length (store w) # drop (Suc f) (lines w)"
        using ne ins by simp
    qed
  qed
  show ?thesis
    using cut again imm f by (intro exI [of _ ?w1]) simp
qed

theorem cut_then_paste_witness:
  "valid_refs \<lparr>store = [\<lparr>edit_text = ''x'', edit_pos = 0, original_text = ''x''\<rparr>,
                        \<lparr>edit_text = ''a'', edit_pos = 0, original_text = ''a''\<rparr>],
               file_obj = None, lines = [0, 1], focus = 0, clipboard = None\<rparr> \<and>
   (\<exists>w1. cut_to_clipboard \<lparr>store = [\<lparr>edit_text = ''x'', edit_pos = 0, original_text = ''x''\<rparr>,
                        \<lparr>edit_text = ''a'', edit_pos = 0, original_text = ''a''\<rparr>],
               file_obj = None, lines = [0, 1], focus = 0, clipboard = None\<rparr> = Inr w1 \<and>
      clipboard w1 = Some [0] \<and>
      texts (paste_from_clipboard w1) = [''x'', ''a''] \<and>
      clipboard (paste_from_clipboard w1) = Some [0])"
  using cut_then_paste
    [of "\<lparr>store = [\<lparr>edit_text = ''x'', edit_pos = 0, original_text = ''x''\<rparr>,
                        \<lparr>edit_text = ''a'', edit_pos = 0, original_text = ''a''\<rparr>],
               file_obj = None, lines = [0, 1], focus = 0, clipboard = None\<rparr>"]
  by (auto simp: valid_refs_def texts_def)

text \<open>
  The claim as the specification words it, for every buffer, fails in two ways.  After an
  earlier cut the clipboard already holds a line, and the paste inserts it too: two lines
  before the cut, three after the paste.  And when the last of several lines is cut, the
  focus moves up, and the immediate paste puts the line back before the new last line.
\<close>

theorem cut_then_paste_counterexample:
  "map_sum id texts
     (run (LineWalker (''x'' @ [nl] @ ''a'' @ [nl] @ ''b''))
        [GetFocus, GetNext 0, GetNext 1, CutToClipboard]) = Inr [''a'', ''b''] \<and>
   map_sum id texts
     (run (LineWalker (''x'' @ [nl] @ ''a'' @ [nl] @ ''b''))
        [GetFocus, GetNext 0, GetNext 1, CutToClipboard, CutToClipboard, PasteFromClipboard])
      = Inr [''x'', ''a'', ''b''] \<and>
   map_sum id texts
     (run (LineWalker (''x'' @ [nl] @ ''a'' @ [nl] @ ''b''))
        [GetFocus, GetNext 0, GetNext 1, SetFocus 2]) = Inr [''x'', ''a'', ''b''] \<and>
   map_sum id texts
     (run (LineWalker (''x'' @ [nl] @ ''a'' @ [nl] @ ''b''))
        [GetFocus, GetNext 0, GetNext 1, SetFocus 2, CutToClipboard, PasteFromClipboard])
      = Inr [''x'', ''b'', ''a'']"
  by code_simp

section \<open>Saving an unedited buffer\<close>

lemma write_lines_snoc:
  "write_lines p (l @ [x]) = p @ concat (map (\<lambda>y. y @ [nl]) l) @ x"
  by (induction l arbitrary: p) simp_all

lemma collect_lines_fold:
  "fold (collect_line h) ls acc =
     acc @ map (\<lambda>a. if expandtabs (original_text (h ! a)) = edit_text (h ! a)
                     then original_text (h ! a) else edit_text (h ! a)) ls"
  by (induction ls arbitrary: acc) (simp_all add: collect_line_def)

lemma collect_lines_map:
  "collect_lines w =
     map (\<lambda>a. if expandtabs (original_text (store w ! a)) = edit_text (store w ! a)
              then original_text (store w ! a) else edit_text (store w ! a)) (lines w)"
  by (simp add: collect_lines_def collect_lines_fold)

lemma pristine_LineWalker: "pristine (universal_newlines s) (LineWalker s)"
  by (simp add: pristine_def LineWalker_def origs_def)

lemma pristine_collect: "pristine s w \<Longrightarrow> collect_lines w = origs w"
  by (auto simp: pristine_def collect_lines_map origs_def list_all_iff)

lemma read_next_line_pristine:
  assumes p: "pristine s w" and o: "file_obj w \<noteq> None"
  shows "\<exists>x w'. read_next_line w = Inr (x, w') \<and> pristine s w' \<and> origs w' = origs w @ [x]"
proof -
  from o obtain c where c: "file_obj w = Some c" by auto
  obtain d r where dr: "readline c = (d, r)" by (cases "readline c")
  let ?closed = "d = [] \<or> last d \<noteq> nl"
  let ?x = "if ?closed then d else butlast d"
  let ?w' = "w\<lparr>file_obj := (if ?closed then None else Some r),
            store := store w @ [\<lparr>edit_text = expandtabs ?x, edit_pos = 0, original_text = ?x\<rparr>],
            lines := lines w @ [length (store w)]\<rparr>"
  have rd: "read_next_line w = Inr (?x, ?w')"
    using c dr
    by (simp add: read_next_line_def Let_def alloc_def upd_def HighlightedEdit_def
          set_edit_pos_def)
  have all: "list_all (\<lambda>a. a < length (store w)) (lines w)"
    using p by (auto simp: pristine_def list_all_iff)
  have og: "origs ?w' = origs w @ [?x]"
    using all by (auto simp: origs_def list_all_iff nth_append)
  have cat: "concat (map (\<lambda>x. x @ [nl]) (origs w)) @ c = s"
    using p c by (simp add: pristine_def)
  have dr_c: "d @ r = c" using dr by (rule readline_append)
  have "pristine s ?w'"
  proof (cases ?closed)
    case True
    then have "r = []" using readline_eof [OF dr] by simp
    then have "write_lines [] (origs ?w') = s"
      using True cat dr_c unfolding og by (simp add: write_lines_snoc)
    moreover have "list_all (\<lambda>a. a < length (store ?w') \<and>
        edit_text (store ?w' ! a) = expandtabs (original_text (store ?w' ! a))) (lines ?w')"
      using p by (auto simp: pristine_def list_all_iff nth_append)
    ultimately show ?thesis using True unfolding pristine_def by simp
  next
    case False
    then have "butlast d @ [nl] = d" using append_butlast_last_id [of d] by auto
    with dr_c have "butlast d @ nl # r = c"
      by (metis append.assoc append_Cons append_Nil)
    then have "concat (map (\<lambda>x. x @ [nl]) (origs ?w')) @ r = s"
      using False cat unfolding og by simp
    moreover have "list_all (\<lambda>a. a < length (store ?w') \<and>
        edit_text (store ?w' ! a) = expandtabs (original_text (store ?w' ! a))) (lines ?w')"
      using p by (auto simp: pristine_def list_all_iff nth_append)
    ultimately show ?thesis using False unfolding pristine_def by simp
  qed
  with rd og show ?thesis by blast
qed

lemma get_at_pos_pristine:
  "pristine s w \<Longrightarrow> get_at_pos w pos = Inr (r, w') \<Longrightarrow> pristine s w'"
  using read_next_line_pristine [of s w]
  by (auto simp: get_at_pos_def split: if_splits sum.splits)

lemma read_rest_pristine:
  "pristine s w \<Longrightarrow> l = origs w \<Longrightarrow>
   \<exists>w'. read_rest w l = Inr (origs w', w') \<and> pristine s w' \<and> file_obj w' = None"
proof (induction w l rule: read_rest.induct)
  case (1 w l)
  show ?case
  proof (cases "file_obj w = None")
    case True
    with "1.prems" show ?thesis by (simp add: read_rest.simps)
  next
    case False
    from read_next_line_pristine [OF "1.prems"(1) False] obtain x w1 where
      rd: "read_next_line w = Inr (x, w1)" and p1: "pristine s w1"
      and o1: "origs w1 = origs w @ [x]" by blast
    have "l @ [x] = origs w1" using o1 "1.prems"(2) by simp
    from "1.IH" [OF False rd refl p1 this] obtain w' where
      "read_rest w1 (l @ [x]) = Inr (origs w', w')" "pristine s w'" "file_obj w' = None"
      by blast
    then show ?thesis using False rd by (subst read_rest.simps) auto
  qed
qed

lemma save_file_pristine:
  assumes "pristine s w"
  shows "\<exists>w'. save_file w = Inr (s, w') \<and> pristine s w' \<and> file_obj w' = None"
proof -
  from read_rest_pristine [OF assms, of "collect_lines w"] pristine_collect [OF assms]
  obtain w' where r: "read_rest w (collect_lines w) = Inr (origs w', w')"
    and p: "pristine s w'" and c: "file_obj w' = None"
    by auto
  have "write_lines [] (origs w') = s" using p c by (simp add: pristine_def)
  then show ?thesis using r p c by (simp add: save_file_def)
qed

lemma pristine_frame:
  "pristine s (w\<lparr>focus := f\<rparr>) = pristine s w"
  "pristine s (w\<lparr>clipboard := cb\<rparr>) = pristine s w"
  by (simp_all add: pristine_def origs_def split: option.splits)

lemma step_pristine:
  "\<not> edits c \<Longrightarrow> pristine s w \<Longrightarrow> step w c = Inr w' \<Longrightarrow> pristine s w'"
proof (cases c)
  case SaveFile
  assume "pristine s w" "step w c = Inr w'"
  then show ?thesis using SaveFile save_file_pristine [of s w]
    by (auto split: sum.splits)
qed (auto simp: get_focus_def get_next_def get_prev_def set_focus_def clear_clipboard_def
      pristine_frame split: sum.splits dest: get_at_pos_pristine)

lemma run_pristine:
  "list_all (\<lambda>c. \<not> edits c) cs \<Longrightarrow> pristine s w \<Longrightarrow> run w cs = Inr w' \<Longrightarrow> pristine s w'"
proof (induction cs arbitrary: w)
  case Nil
  then show ?case by simp
next
  case (Cons c cs)
  from Cons.prems obtain w1 where w1: "step w c = Inr w1" "run w1 cs = Inr w'"
    by (auto split: sum.splits)
  from Cons.prems have e: "\<not> edits c" "list_all (\<lambda>c. \<not> edits c) cs" by simp_all
  from step_pristine [OF e(1) Cons.prems(2) w1(1)] have "pristine s w1" .
  from Cons.IH [OF e(2) this w1(2)] show ?case .
qed

lemma save_writes_delivered_text:
  assumes "list_all (\<lambda>c. \<not> edits c) cs" and "run (LineWalker content) cs = Inr w"
  shows "\<exists>w'. save_file w = Inr (universal_newlines content, w') \<and>
              universal_newlines content
                = concat (map (\<lambda>x. x @ [nl]) (butlast (origs w'))) @ last (origs w')"
proof -
  let ?delivered = "universal_newlines content"
  have p: "pristine ?delivered w"
    using run_pristine [OF assms(1) pristine_LineWalker assms(2)] .
  from save_file_pristine [OF p] obtain w' where
    s: "save_file w = Inr (?delivered, w')" and p': "pristine ?delivered w'" and c: "file_obj w' = None"
    by blast
  from p' c have ne: "origs w' \<noteq> []" and wl: "write_lines [] (origs w') = ?delivered"
    by (simp_all add: pristine_def origs_def)
  from ne have "origs w' = butlast (origs w') @ [last (origs w')]" by simp
  then have "write_lines [] (origs w')
      = concat (map (\<lambda>x. x @ [nl]) (butlast (origs w'))) @ last (origs w')"
    using write_lines_snoc [of "[]" "butlast (origs w')" "last (origs w')"] by simp
  with s wl show ?thesis by auto
qed

text \<open>
  Claim C2, as the code has it.  Let the file contain no carriage return, so that its lines
  end in \<^verbatim>\<open>'\n'\<close> only, and let the platform's line separator be \<^verbatim>\<open>'\n'\<close>.  Create a
  buffer over the file with the content \<open>content\<close> and run any sequence of operations that
  edit no line (navigation, reading the coordinates, clearing the clipboard, saving).
  Then \<open>save_file\<close> returns and leaves exactly \<open>content\<close> in the output file, with or
  without a terminator at its end as \<open>content\<close> has it.  What it writes is every line but
  the last followed by one terminator, and then the last line with no terminator after it.
\<close>

theorem save_round_trip:
  assumes "list_all (\<lambda>c. \<not> edits c) cs" and "run (LineWalker content) cs = Inr w"
    and "cr \<notin> set content"
  shows "\<exists>w'. save_file w = Inr (content, w') \<and>
              save_file_bytes [nl] w = Inr (content, w') \<and>
              content = concat (map (\<lambda>x. x @ [nl]) (butlast (origs w'))) @ last (origs w')"
proof -
  have u: "universal_newlines content = content"
    using assms(3) by (rule universal_newlines_id)
  from save_writes_delivered_text [OF assms(1,2)] obtain w' where
    s: "save_file w = Inr (content, w')"
    and j: "content = concat (map (\<lambda>x. x @ [nl]) (butlast (origs w'))) @ last (origs w')"
    unfolding u by blast
  have "save_file_bytes [nl] w = Inr (content, w')"
    using s by (simp add: save_file_bytes_def write_newlines_lf)
  with s j show ?thesis by blast
qed

theorem save_round_trip_witness:
  "\<exists>w'. save_file_bytes [nl]
         \<lparr>store = [\<lparr>edit_text = ''def f():'', edit_pos = 0, original_text = ''def f():''\<rparr>,
            \<lparr>edit_text = ''        pass'', edit_pos = 0, original_text = [tab] @ ''pass''\<rparr>],
          file_obj = Some ''end'', lines = [0, 1], focus = 1, clipboard = None\<rparr>
       = Inr (''def f():'' @ [nl] @ [tab] @ ''pass'' @ [nl] @ ''end'', w')"
proof -
  have r: "run (LineWalker (''def f():'' @ [nl] @ [tab] @ ''pass'' @ [nl] @ ''end''))
             [GetFocus, GetNext 0, SetFocus 1]
      = Inr \<lparr>store = [\<lparr>edit_text = ''def f():'', edit_pos = 0, original_text = ''def f():''\<rparr>,
            \<lparr>edit_text = ''        pass'', edit_pos = 0, original_text = [tab] @ ''pass''\<rparr>],
          file_obj = Some ''end'', lines = [0, 1], focus = 1, clipboard = None\<rparr>"
    by code_simp
  have e: "list_all (\<lambda>c. \<not> edits c) [GetFocus, GetNext 0, SetFocus 1]" by simp
  have c: "cr \<notin> set (''def f():'' @ [nl] @ [tab] @ ''pass'' @ [nl] @ ''end'')"
    by (simp add: cr_def nl_def tab_def)
  from save_round_trip [OF e r c] show ?thesis by blast
qed

text \<open>
  The claim as the specification words it, for every source file, fails.  A file whose
  lines end in \<^verbatim>\<open>'\r\n'\<close>, or in \<^verbatim>\<open>'\r'\<close> alone, is read with every terminator turned
  into \<^verbatim>\<open>'\n'\<close>, and a fresh buffer saved at once writes \<^verbatim>\<open>'\n'\<close> in their place.  And
  on a platform whose line separator is \<^verbatim>\<open>'\r\n'\<close> a file whose lines end in \<^verbatim>\<open>'\n'\<close> is
  written back with \<^verbatim>\<open>'\r\n'\<close>.
\<close>

theorem save_round_trip_counterexample:
  "map_sum id fst (save_file_bytes [nl] (LineWalker (''a'' @ [cr, nl] @ ''b'')))
     = Inr (''a'' @ [nl] @ ''b'') \<and>
   ''a'' @ [nl] @ ''b'' \<noteq> ''a'' @ [cr, nl] @ ''b'' \<and>
   map_sum id fst (save_file_bytes [nl] (LineWalker (''a'' @ [cr] @ ''b'')))
     = Inr (''a'' @ [nl] @ ''b'') \<and>
   ''a'' @ [nl] @ ''b'' \<noteq> ''a'' @ [cr] @ ''b'' \<and>
   map_sum id fst (save_file_bytes [cr, nl] (LineWalker (''a'' @ [nl] @ ''b'')))
     = Inr (''a'' @ [cr, nl] @ ''b'') \<and>
   ''a'' @ [cr, nl] @ ''b'' \<noteq> ''a'' @ [nl] @ ''b''"
  by code_simp

section \<open>What save emits for a materialized line\<close>

lemma read_rest_prefix:
  "read_rest w l = Inr (l', w') \<Longrightarrow> \<exists>rest. l' = l @ rest"
proof (induction w l rule: read_rest.induct)
  case (1 w l)
  show ?case
  proof (cases "file_obj w = None")
    case True
    with "1.prems" show ?thesis by (simp add: read_rest.simps)
  next
    case False
    with "1.prems" obtain x w1 where rd: "read_next_line w = Inr (x, w1)"
      and rest: "read_rest w1 (l @ [x]) = Inr (l', w')"
      by (auto simp: read_rest.simps [of w l] split: sum.splits)
    from "1.IH" [OF False rd refl rest] show ?thesis by auto
  qed
qed

text \<open>
  Claim C1, as the code has it.  Whenever \<open>save_file\<close> returns, what it writes is the
  lines it collected, joined by terminators: first one line for every materialized widget,
  in order, then the lines it read from the rest of the file.  The line for a widget is
  its \<^verbatim>\<open>original_text\<close> verbatim exactly when the tab expansion of \<^verbatim>\<open>original_text\<close>
  equals the displayed text, and the displayed text otherwise.  The test is this equality
  of the expansion; \<open>re_tab\<close> is not called.
\<close>

theorem save_emits_original_when_expansion_matches:
  "save_file w = Inr (out, w') \<Longrightarrow>
   \<exists>rest. out = write_lines []
     (map (\<lambda>a. if expandtabs (original_text (store w ! a)) = edit_text (store w ! a)
               then original_text (store w ! a)
               else edit_text (store w ! a)) (lines w) @ rest)"
  using read_rest_prefix [of w "collect_lines w"]
  by (auto simp: save_file_def collect_lines_map split: sum.splits)

theorem save_emits_original_when_expansion_matches_witness:
  "save_file two_tabbed_lines = Inr (''abcdefg'' @ [tab] @ ''h'' @ [nl] @ ''x   y'', two_tabbed_lines) \<and>
   (\<exists>rest. ''abcdefg'' @ [tab] @ ''h'' @ [nl] @ ''x   y'' = write_lines []
     (map (\<lambda>a. if expandtabs (original_text (store two_tabbed_lines ! a))
                    = edit_text (store two_tabbed_lines ! a)
               then original_text (store two_tabbed_lines ! a)
               else edit_text (store two_tabbed_lines ! a)) (lines two_tabbed_lines) @ rest))"
proof -
  have s: "save_file two_tabbed_lines
      = Inr (''abcdefg'' @ [tab] @ ''h'' @ [nl] @ ''x   y'', two_tabbed_lines)"
    by code_simp
  show ?thesis
    using s save_emits_original_when_expansion_matches [OF s] by (rule conjI)
qed

text \<open>
  The claim as the specification words it, with the test \<open>re_tab display_text =
  original_text\<close>, fails on the one-line file \<open>abcdefg<TAB>h\<close>: the tab expands to a single
  space, \<open>re_tab\<close> does not bring it back, so by the claim the displayed text would be
  written; the code writes the original text with its tab.
\<close>

theorem save_re_tab_test_counterexample:
  "run (LineWalker (''abcdefg'' @ [tab] @ ''h'')) [GetFocus]
     = Inr \<lparr>store = [\<lparr>edit_text = ''abcdefg h'', edit_pos = 0,
                        original_text = ''abcdefg'' @ [tab] @ ''h''\<rparr>],
            file_obj = None, lines = [0], focus = 0, clipboard = None\<rparr> \<and>
   re_tab ''abcdefg h'' \<noteq> ''abcdefg'' @ [tab] @ ''h'' \<and>
   ''abcdefg h'' \<noteq> ''abcdefg'' @ [tab] @ ''h'' \<and>
   map_sum id fst
     (save_file \<lparr>store = [\<lparr>edit_text = ''abcdefg h'', edit_pos = 0,
                        original_text = ''abcdefg'' @ [tab] @ ''h''\<rparr>],
            file_obj = None, lines = [0], focus = 0, clipboard = None\<rparr>)
     = Inr (''abcdefg'' @ [tab] @ ''h'')"
  by code_simp

section \<open>Re-tabbing an expanded line\<close>

lemma retab_rec_short: "length rem \<le> 8 \<Longrightarrow> retab_rec buf rem = buf @ rem"
  by (subst retab_rec.simps) simp

lemma retab_rec_collapse:
  "8 < length rem \<Longrightarrow> slice rem 6 8 = [space, space] \<Longrightarrow>
   retab_rec buf rem = rstrip (buf @ take 8 rem) @ [tab] @ retab_rec [] (drop 8 rem)"
  by (subst retab_rec.simps) simp

lemma retab_rec_keep:
  "8 < length rem \<Longrightarrow> slice rem 6 8 \<noteq> [space, space] \<Longrightarrow>
   retab_rec buf rem = retab_rec (buf @ take 8 rem) (drop 8 rem)"
  by (subst retab_rec.simps) simp

lemma slice_append: "p \<le> i \<Longrightarrow> i \<le> j \<Longrightarrow> slice s p i @ slice s i j = slice s p j"
proof -
  assume a: "p \<le> i" "i \<le> j"
  have "slice s p j = take ((i - p) + (j - i)) (drop p s)" using a by (simp add: slice_def)
  also have "\<dots> = take (i - p) (drop p s) @ take (j - i) (drop (i - p) (drop p s))"
    by (rule take_add)
  finally show ?thesis using a by (simp add: slice_def)
qed

lemma slice_drop: "slice (drop i s) a b = slice s (i + a) (i + b)"
  by (simp add: slice_def add.commute)

lemma slice_to_end: "p \<le> i \<Longrightarrow> slice s p i @ drop i s = drop p s"
proof -
  assume "p \<le> i"
  then have "drop i s = drop (i - p) (drop p s)" by simp
  then show ?thesis by (simp add: slice_def del: drop_drop)
qed

lemma loop_rec:
  "p \<le> i \<Longrightarrow>
   (case fold (re_tab_step s) (range8 (i + 8) (length s)) (l, p) of
      (l', p') \<Rightarrow> concat l' @ drop p' s)
   = concat l @ retab_rec (slice s p i) (drop i s)"
proof (induction "length s - i" arbitrary: i l p rule: less_induct)
  case less
  show ?case
  proof (cases "i + 8 < length s")
    case False
    then have "range8 (i + 8) (length s) = []" by (simp add: range8.simps)
    moreover have "retab_rec (slice s p i) (drop i s) = slice s p i @ drop i s"
      using False by (intro retab_rec_short) simp
    ultimately show ?thesis using less.prems by (simp add: slice_to_end)
  next
    case True
    then have r: "range8 (i + 8) (length s) = (i + 8) # range8 (i + 8 + 8) (length s)"
      by (subst range8.simps) simp
    have sl: "slice (drop i s) 6 8 = slice s (i + 8 - 2) (i + 8)"
      by (simp add: slice_def add.commute)
    have tk: "slice s p i @ take 8 (drop i s) = slice s p (i + 8)"
      using slice_append [of p i "i + 8" s] less.prems by (simp add: slice_def)
    have lt: "length s - (i + 8) < length s - i" using True by simp
    show ?thesis
    proof (cases "slice s (i + 8 - 2) (i + 8) = [space, space]")
      case c: True
      have "retab_rec (slice s p i) (drop i s)
          = rstrip (slice s p (i + 8)) @ [tab] @ retab_rec [] (drop (i + 8) s)"
        using retab_rec_collapse [of "drop i s" "slice s p i"] True c sl tk
        by (simp add: add.commute)
      moreover have "(case fold (re_tab_step s) (range8 (i + 8 + 8) (length s))
            (l @ [rstrip (slice s p (i + 8)) @ [tab]], i + 8) of
            (l', p') \<Rightarrow> concat l' @ drop p' s)
          = concat (l @ [rstrip (slice s p (i + 8)) @ [tab]])
              @ retab_rec (slice s (i + 8) (i + 8)) (drop (i + 8) s)"
        using less.hyps [OF lt, of "i + 8"] by simp
      ultimately show ?thesis using c unfolding r
        by (simp add: re_tab_step_def slice_def)
    next
      case c: False
      have "retab_rec (slice s p i) (drop i s)
          = retab_rec (slice s p (i + 8)) (drop (i + 8) s)"
        using retab_rec_keep [of "drop i s" "slice s p i"] True c sl tk
        by (simp add: add.commute)
      moreover have "(case fold (re_tab_step s) (range8 (i + 8 + 8) (length s)) (l, p) of
            (l', p') \<Rightarrow> concat l' @ drop p' s)
          = concat l @ retab_rec (slice s p (i + 8)) (drop (i + 8) s)"
        using less.hyps [OF lt, of p] less.prems by simp
      ultimately show ?thesis using c unfolding r
        by (simp add: re_tab_step_def)
    qed
  qed
qed

lemma set_range8: "i \<in> set (range8 a n) \<Longrightarrow> a \<le> i \<and> i < n"
proof (induction a n rule: range8.induct)
  case (1 a n)
  then show ?case
    by (subst (asm) (2) range8.simps) (auto split: if_splits)
qed

lemma loop_p0:
  "fold (re_tab_step s) js (l, p) = (l', 0) \<Longrightarrow> \<forall>j\<in>set js. 0 < j \<Longrightarrow> l' = l \<and> p = 0"
  by (induction js arbitrary: l p) (auto simp: re_tab_step_def split: if_splits)

lemma re_tab_rec: "re_tab s = retab_rec [] s"
proof -
  obtain l' p' where f: "fold (re_tab_step s) (range8 8 (length s)) ([], 0) = (l', p')"
    by (cases "fold (re_tab_step s) (range8 8 (length s)) ([], 0)")
  have "concat l' @ drop p' s = retab_rec [] s"
    using loop_rec [of 0 0 s "[]"] f by (simp add: slice_def)
  moreover have "p' = 0 \<Longrightarrow> l' = []"
    using loop_p0 [of s "range8 8 (length s)" "[]" 0 l'] f set_range8 [of _ 8 "length s"]
    by fastforce
  ultimately show ?thesis using f by (auto simp: re_tab_def)
qed

lemma retab_rec_quiet:
  "(\<And>k. 0 < k \<Longrightarrow> 8 * k < length s \<Longrightarrow> slice s (8 * k - 2) (8 * k) \<noteq> [space, space]) \<Longrightarrow>
   retab_rec buf s = buf @ s"
proof (induction "length s" arbitrary: s buf rule: less_induct)
  case less
  show ?case
  proof (cases "length s \<le> 8")
    case True
    then show ?thesis by (rule retab_rec_short)
  next
    case False
    then have "slice s (8 * 1 - 2) (8 * 1) \<noteq> [space, space]"
      by (intro less.prems) simp_all
    then have "retab_rec buf s = retab_rec (buf @ take 8 s) (drop 8 s)"
      using False by (intro retab_rec_keep) simp_all
    also have "\<dots> = (buf @ take 8 s) @ drop 8 s"
    proof (rule less.hyps)
      show "length (drop 8 s) < length s" using False by simp
      fix k :: nat assume k: "0 < k" "8 * k < length (drop 8 s)"
      have "slice s (8 * (k + 1) - 2) (8 * (k + 1)) \<noteq> [space, space]"
        using k by (intro less.prems) simp_all
      moreover have "slice (drop 8 s) (8 * k - 2) (8 * k) = slice s (8 * (k + 1) - 2) (8 * (k + 1))"
        using k by (simp add: slice_def add.commute)
      ultimately show "slice (drop 8 s) (8 * k - 2) (8 * k) \<noteq> [space, space]" by simp
    qed
    finally show ?thesis by simp
  qed
qed

lemma retab_rec_stop:
  "length A = 8 * m \<Longrightarrow> 0 < m \<Longrightarrow> B \<noteq> [] \<Longrightarrow>
   (\<And>k. 0 < k \<Longrightarrow> k < m \<Longrightarrow> slice A (8 * k - 2) (8 * k) \<noteq> [space, space]) \<Longrightarrow>
   slice A (8 * m - 2) (8 * m) = [space, space] \<Longrightarrow>
   retab_rec buf (A @ B) = rstrip (buf @ A) @ [tab] @ retab_rec [] B"
proof (induction m arbitrary: A buf)
  case 0
  then show ?case by simp
next
  case (Suc m)
  have long: "8 < length (A @ B)" using Suc.prems(1,3) by (cases B) simp_all
  have s68: "slice (A @ B) 6 8 = slice A 6 8" using Suc.prems(1) by (simp add: slice_def)
  show ?case
  proof (cases "m = 0")
    case True
    then have "length A = 8" using Suc.prems(1) by simp
    moreover from True Suc.prems(5) have "slice A 6 8 = [space, space]" by simp
    ultimately show ?thesis
      using retab_rec_collapse [OF long, of buf] s68 by simp
  next
    case False
    have "slice A (8 * 1 - 2) (8 * 1) \<noteq> [space, space]"
      using False by (intro Suc.prems(4)) simp_all
    then have "retab_rec buf (A @ B) = retab_rec (buf @ take 8 (A @ B)) (drop 8 (A @ B))"
      using long s68 by (intro retab_rec_keep) simp_all
    also have "\<dots> = retab_rec ((buf @ take 8 A) @ []) (drop 8 A @ B)"
      using Suc.prems(1) by simp
    also have "\<dots> = rstrip ((buf @ take 8 A) @ drop 8 A) @ [tab] @ retab_rec [] B"
      unfolding append_Nil2
    proof (rule Suc.IH)
      show "length (drop 8 A) = 8 * m" using Suc.prems(1) by simp
      show "0 < m" using False by simp
      show "B \<noteq> []" by fact
      show "slice (drop 8 A) (8 * m - 2) (8 * m) = [space, space]"
        using Suc.prems(5) False by (simp add: slice_def add.commute)
      fix k :: nat assume k: "0 < k" "k < m"
      have "slice A (8 * (k + 1) - 2) (8 * (k + 1)) \<noteq> [space, space]"
        using k by (intro Suc.prems(4)) simp_all
      moreover have "slice (drop 8 A) (8 * k - 2) (8 * k) = slice A (8 * (k + 1) - 2) (8 * (k + 1))"
        using k by (simp add: slice_def add.commute)
      ultimately show "slice (drop 8 A) (8 * k - 2) (8 * k) \<noteq> [space, space]" by simp
    qed
    finally show ?thesis by simp
  qed
qed

lemma expandtabs_from_plain:
  "tab \<notin> set w \<Longrightarrow> nl \<notin> set w \<Longrightarrow> cr \<notin> set w \<Longrightarrow> expandtabs_from col w = w"
  by (induction w arbitrary: col) auto

lemma expandtabs_from_mod:
  "col mod 8 = col' mod 8 \<Longrightarrow> expandtabs_from col s = expandtabs_from col' s"
proof (induction s arbitrary: col col')
  case Nil
  show ?case by simp
next
  case (Cons c s)
  have 1: "(col + 1) mod 8 = (col' + 1) mod 8"
    using Cons.prems by (metis mod_add_left_eq)
  have 2: "(col + (8 - col' mod 8)) mod 8 = (col' + (8 - col' mod 8)) mod 8"
    using Cons.prems by (metis mod_add_left_eq)
  show ?case
    using Cons.IH [OF 1] Cons.IH [OF 2] Cons.IH [of 0 0] Cons.prems
    by (simp add: Let_def)
qed

lemma expandtabs_from_field:
  "tab \<notin> set w \<Longrightarrow> nl \<notin> set w \<Longrightarrow> cr \<notin> set w \<Longrightarrow>
   expandtabs_from col (w @ tab # r) =
     w @ replicate (8 - (col + length w) mod 8) space @ expandtabs_from 0 r"
proof (induction w arbitrary: col)
  case Nil
  have "(col + (8 - col mod 8)) mod 8 = 0 mod 8"
    by (simp add: mod_simps) presburger
  from expandtabs_from_mod [OF this] show ?case by (simp add: Let_def)
next
  case (Cons c w)
  then have "c \<noteq> tab" "c \<noteq> nl" "c \<noteq> cr" by auto
  with Cons show ?case by simp
qed

lemma expandtabs_from_Nil: "expandtabs_from col r = [] \<longleftrightarrow> r = []"
  by (cases r) (auto simp: Let_def)

lemma is_space_space [simp]: "is_space space"
  by (simp add: is_space_def space_def)

lemma rstrip_pad:
  "w = [] \<or> \<not> is_space (last w) \<Longrightarrow> rstrip (w @ replicate n space) = w"
proof -
  assume w: "w = [] \<or> \<not> is_space (last w)"
  have "dropWhile is_space (replicate n space @ rev w) = dropWhile is_space (rev w)"
    by (rule dropWhile_append2) simp
  also have "\<dots> = rev w"
    using w by (cases w rule: rev_cases) simp_all
  finally show ?thesis by (simp add: rstrip_def)
qed

lemma mem_range8: "a + 8 * k < n \<Longrightarrow> a + 8 * k \<in> set (range8 a n)"
proof (induction k arbitrary: a)
  case 0
  then show ?case by (subst range8.simps) simp
next
  case (Suc k)
  then have "(a + 8) + 8 * k \<in> set (range8 (a + 8) n)" by (intro Suc.IH) simp
  moreover have "a < n" using Suc.prems by simp
  ultimately show ?case by (subst range8.simps) (simp add: add.assoc)
qed

lemma quiet_field:
  assumes "no_space_pair_at_stop w" "0 < k" "8 * k < length w"
  shows "slice w (8 * k - 2) (8 * k) \<noteq> [space, space]"
proof -
  obtain j where j: "k = Suc j" using assms(2) by (cases k) auto
  have "8 + 8 * j \<in> set (range8 8 (length w))"
    using assms(3) j by (intro mem_range8) simp
  then show ?thesis
    using assms(1) j by (auto simp: no_space_pair_at_stop_def list_all_iff)
qed

lemma join_tabs_Nil: "join_tabs fs = [] \<longleftrightarrow> fs = [] \<or> fs = [[]]"
  by (induction fs rule: join_tabs.induct) simp_all

lemma retab_fields:
  "fs \<noteq> [] \<Longrightarrow>
   \<forall>w\<in>set fs. tab \<notin> set w \<and> nl \<notin> set w \<and> cr \<notin> set w \<and> no_space_pair_at_stop w \<Longrightarrow>
   \<forall>w\<in>set (butlast fs). (w = [] \<or> \<not> is_space (last w)) \<and> length w mod 8 \<le> 6 \<Longrightarrow>
   (1 < length fs \<longrightarrow> last fs \<noteq> []) \<Longrightarrow>
   retab_rec [] (expandtabs_from 0 (join_tabs fs)) = join_tabs fs"
proof (induction fs rule: join_tabs.induct)
  case 1
  then show ?case by simp
next
  case (2 w)
  then have "expandtabs_from 0 w = w" by (simp add: expandtabs_from_plain)
  moreover have "retab_rec [] w = [] @ w"
    using 2 by (intro retab_rec_quiet quiet_field) simp_all
  ultimately show ?case by simp
next
  case (3 w v ws)
  let ?r = "join_tabs (v # ws)"
  let ?n = "8 - length w mod 8"
  let ?A = "w @ replicate ?n space"
  let ?B = "expandtabs_from 0 ?r"
  let ?m = "length w div 8 + 1"
  from "3.prems" have w: "tab \<notin> set w" "nl \<notin> set w" "cr \<notin> set w" "no_space_pair_at_stop w"
    and e: "w = [] \<or> \<not> is_space (last w)" and n6: "length w mod 8 \<le> 6"
    and lst: "last (v # ws) \<noteq> []"
    by simp_all
  have ih: "retab_rec [] ?B = ?r"
    using "3.prems" by (intro "3.IH") (simp_all split: if_splits)
  have ex: "expandtabs_from 0 (join_tabs (w # v # ws)) = ?A @ ?B"
    using expandtabs_from_field [OF w(1-3), of 0 ?r] by simp
  have B: "?B \<noteq> []"
    using lst by (auto simp: expandtabs_from_Nil join_tabs_Nil)
  have lenA: "length ?A = 8 * ?m"
  proof -
    have "length w = 8 * (length w div 8) + length w mod 8" by simp
    moreover have "length w mod 8 < 8" by simp
    ultimately show ?thesis by simp arith
  qed
  have n2: "2 \<le> ?n" using n6 by arith
  have last2: "slice ?A (8 * ?m - 2) (8 * ?m) = [space, space]"
  proof -
    have "8 * ?m - 2 = length w + (?n - 2)" using lenA n2 by simp
    then have "drop (8 * ?m - 2) ?A = replicate 2 space"
      using n2 by simp
    then show ?thesis by (simp add: slice_def numeral_2_eq_2)
  qed
  have inner: "slice ?A (8 * k - 2) (8 * k) \<noteq> [space, space]" if k: "0 < k" "k < ?m" for k
  proof -
    have le: "8 * k \<le> length w"
    proof -
      have "k \<le> length w div 8" using k by simp
      then have "8 * k \<le> 8 * (length w div 8)" by simp
      also have "\<dots> \<le> length w" by simp
      finally show ?thesis .
    qed
    then have sl: "slice ?A (8 * k - 2) (8 * k) = slice w (8 * k - 2) (8 * k)"
      by (simp add: slice_def)
    show ?thesis
    proof (cases "8 * k < length w")
      case True
      then show ?thesis using quiet_field [OF w(4) k(1)] sl by simp
    next
      case False
      with le have eq: "8 * k = length w" by simp
      then have ne: "w \<noteq> []" using k by auto
      have "slice w (8 * k - 2) (8 * k) = drop (length w - 2) w"
        using eq by (simp add: slice_def)
      moreover have "last (drop (length w - 2) w) = last w"
        using ne by (intro last_drop) (cases w, simp_all)
      ultimately have "slice w (8 * k - 2) (8 * k) = [space, space] \<Longrightarrow> last w = space"
        by (metis last.simps list.distinct(1))
      then show ?thesis using e ne sl by auto
    qed
  qed
  have "retab_rec [] (?A @ ?B) = rstrip ([] @ ?A) @ [tab] @ retab_rec [] ?B"
    using lenA B inner last2 by (intro retab_rec_stop [where m = ?m]) simp_all
  then show ?case
    unfolding ex ih using rstrip_pad [OF e] by simp
qed

lemma split_tabs_join: "join_tabs (split_tabs s) = s"
proof (induction s)
  case Nil
  show ?case by simp
next
  case (Cons c s)
  then show ?case
    by (cases "split_tabs s"; cases "tl (split_tabs s)") (auto split: list.splits)
qed

lemma split_tabs_no_tab: "w \<in> set (split_tabs s) \<Longrightarrow> tab \<notin> set w"
  by (induction s arbitrary: w) (auto split: if_splits list.splits)

lemma split_tabs_not_Nil: "split_tabs s \<noteq> []"
  by (cases s) (auto split: list.splits)

text \<open>
  Claim C4, as the code has it.  Split a line at its tabs into fields.  If no field
  contains a line break; no field has two spaces ending at a multiple-of-8 offset strictly
  inside it; every field followed by a tab does not end in a whitespace character and
  has a length of at most 6 modulo 8, so that its tab expands to at least two spaces; and
  the line does not end with a tab; then \<open>re_tab\<close> applied to the tab expansion of the line
  returns the line.
\<close>

theorem re_tab_expandtabs:
  "tab_aligned s \<Longrightarrow> re_tab (expandtabs s) = s"
proof -
  assume a: "tab_aligned s"
  have "retab_rec [] (expandtabs_from 0 (join_tabs (split_tabs s))) = join_tabs (split_tabs s)"
    using a split_tabs_no_tab [of _ s]
    by (intro retab_fields split_tabs_not_Nil) (auto simp: tab_aligned_def Let_def list_all_iff)
  then show ?thesis
    by (simp add: re_tab_rec expandtabs_def split_tabs_join)
qed

theorem re_tab_expandtabs_witness:
  "tab_aligned ([tab, tab] @ ''pass'' @ [tab] @ ''xabcdefghijkl'' @ [tab] @ ''y  z'') \<and>
   re_tab (expandtabs ([tab, tab] @ ''pass'' @ [tab] @ ''xabcdefghijkl'' @ [tab] @ ''y  z''))
     = [tab, tab] @ ''pass'' @ [tab] @ ''xabcdefghijkl'' @ [tab] @ ''y  z''"
proof -
  have t: "tab_aligned ([tab, tab] @ ''pass'' @ [tab] @ ''xabcdefghijkl'' @ [tab] @ ''y  z'')"
    by code_simp
  from t re_tab_expandtabs [OF t] show ?thesis by (rule conjI)
qed

text \<open>
  The claim as the specification words it fails.  A line that is a single tab expands to
  eight spaces, which \<open>re_tab\<close> returns unchanged, because its loop stops before the end
  of the string.  A tab that expands to a single space is not restored.  A line without
  any tab whose two spaces end at column 8 gets a tab it never had.  And a space before a
  tab is stripped.
\<close>

theorem re_tab_expandtabs_counterexample:
  "re_tab (expandtabs [tab]) = replicate 8 space \<and>
   re_tab (expandtabs [tab]) \<noteq> [tab] \<and>
   re_tab (expandtabs (''abcdefg'' @ [tab] @ ''h'')) = ''abcdefg h'' \<and>
   re_tab (expandtabs (''abcdefg'' @ [tab] @ ''h'')) \<noteq> ''abcdefg'' @ [tab] @ ''h'' \<and>
   tab \<notin> set ''abcdef  gh'' \<and>
   re_tab (expandtabs ''abcdef  gh'') = ''abcdef'' @ [tab] @ ''gh'' \<and>
   re_tab (expandtabs ''abcdef  gh'') \<noteq> ''abcdef  gh'' \<and>
   re_tab (expandtabs (''a '' @ [tab] @ ''b'')) = ''a'' @ [tab] @ ''b'' \<and>
   re_tab (expandtabs (''a '' @ [tab] @ ''b'')) \<noteq> ''a '' @ [tab] @ ''b''"
  by code_simp

section \<open>References stay valid\<close>

text \<open>
  The theorems on splitting, joining, cutting and pasting assume \<open>valid_refs\<close>.  It holds
  of a new walker and every operation keeps it, so it holds of every state the program
  reaches.
\<close>

lemma length_upd [simp]: "length (upd h a f) = length h"
  by (simp add: upd_def)

lemma set_py_insert [simp]: "set (py_insert xs i x) = insert x (set xs)"
proof -
  have "set (take n xs @ x # drop n xs) = insert x (set (take n xs @ drop n xs))" for n
    by (simp del: append_take_drop_id)
  then have "set (take n xs @ x # drop n xs) = insert x (set xs)" for n
    by simp
  then show ?thesis by (simp add: py_insert_def Let_def)
qed

lemma set_py_delitem: "py_delitem xs i = Inr ys \<Longrightarrow> set ys \<subseteq> set xs"
  by (auto simp: py_delitem_def split: option.splits dest: in_set_takeD in_set_dropD)

lemma set_py_pop: "py_pop xs i = Inr (a, ys) \<Longrightarrow> a \<in> set xs \<and> set ys \<subseteq> set xs"
  by (auto simp: py_pop_def py_index_def Let_def split: option.splits if_splits
        dest: in_set_takeD in_set_dropD)

lemma valid_refs_iff:
  "valid_refs w \<longleftrightarrow>
     (\<forall>a\<in>set (lines w). a < length (store w)) \<and>
     (\<forall>cb. clipboard w = Some cb \<longrightarrow> (\<forall>a\<in>set cb. a < length (store w)))"
  by (auto simp: valid_refs_def list_all_iff split: option.splits)

lemma valid_refs_LineWalker: "valid_refs (LineWalker s)"
  by (simp add: valid_refs_def LineWalker_def)

lemma read_next_line_valid:
  "valid_refs w \<Longrightarrow> read_next_line w = Inr (x, w') \<Longrightarrow> valid_refs w'"
  by (fastforce simp: valid_refs_iff read_next_line_def Let_def alloc_def
        split: option.splits prod.splits)

lemma get_at_pos_valid:
  "valid_refs w \<Longrightarrow> get_at_pos w pos = Inr (r, w') \<Longrightarrow> valid_refs w'"
  by (auto simp: get_at_pos_def split: if_splits sum.splits dest: read_next_line_valid)

lemma split_focus_valid:
  "valid_refs w \<Longrightarrow> split_focus w = Inr w' \<Longrightarrow> valid_refs w'"
  by (fastforce simp: valid_refs_iff split_focus_def Let_def alloc_def split: sum.splits)

lemma combine_prev_valid:
  assumes "valid_refs w" "combine_focus_with_prev w = Inr w'"
  shows "valid_refs w'"
proof (cases "get_prev w (focus w)")
  case (Inl e)
  with assms show ?thesis by (simp add: combine_focus_with_prev_def)
next
  case (Inr p)
  obtain r w1 where p: "p = (r, w1)" by (cases p)
  have v1: "valid_refs w1"
    using assms(1) Inr p get_at_pos_valid by (auto simp: get_prev_def)
  show ?thesis
  proof (cases r)
    case None
    with assms Inr p v1 show ?thesis by (simp add: combine_focus_with_prev_def)
  next
    case (Some q)
    with assms(2) Inr p obtain ls h where "py_delitem (lines w1) (focus w1) = Inr ls"
      "w' = w1\<lparr>store := h, lines := ls, focus := focus w1 - 1\<rparr>" "length h = length (store w1)"
      by (auto simp: combine_focus_with_prev_def Let_def split: sum.splits prod.splits)
    then show ?thesis using v1 set_py_delitem by (fastforce simp: valid_refs_iff)
  qed
qed

lemma combine_next_valid:
  assumes "valid_refs w" "combine_focus_with_next w = Inr w'"
  shows "valid_refs w'"
proof (cases "get_next w (focus w)")
  case (Inl e)
  with assms show ?thesis by (simp add: combine_focus_with_next_def)
next
  case (Inr p)
  obtain r w1 where p: "p = (r, w1)" by (cases p)
  have v1: "valid_refs w1"
    using assms(1) Inr p get_at_pos_valid by (auto simp: get_next_def)
  show ?thesis
  proof (cases r)
    case None
    with assms Inr p v1 show ?thesis by (simp add: combine_focus_with_next_def)
  next
    case (Some q)
    with assms(2) Inr p obtain ls h where "py_delitem (lines w1) (focus w1 + 1) = Inr ls"
      "w' = w1\<lparr>store := h, lines := ls\<rparr>" "length h = length (store w1)"
      by (auto simp: combine_focus_with_next_def Let_def split: sum.splits prod.splits)
    then show ?thesis using v1 set_py_delitem by (fastforce simp: valid_refs_iff)
  qed
qed

lemma cut_valid:
  assumes "valid_refs w" "cut_to_clipboard w = Inr w'"
  shows "valid_refs w'"
proof -
  from assms(2) obtain a ls where pop: "py_pop (lines w) (focus w) = Inr (a, ls)"
    and w': "store w' = store w" "lines w' = ls"
      "clipboard w' = Some ((case clipboard w of None \<Rightarrow> [] | Some c \<Rightarrow> c) @ [a])"
    by (auto simp: cut_to_clipboard_def Let_def set_focus_def split: sum.splits)
  from set_py_pop [OF pop] assms(1) w' show ?thesis
    by (auto simp: valid_refs_iff split: option.splits)
qed

lemma paste_line_valid:
  "valid_refs w \<Longrightarrow> valid_refs (paste_line a w)"
  by (fastforce simp: valid_refs_iff paste_line_def Let_def alloc_def)

lemma fold_paste_line_valid:
  "valid_refs w \<Longrightarrow> valid_refs (fold paste_line cb w)"
  by (induction cb arbitrary: w) (simp_all add: paste_line_valid)

lemma valid_refs_focus [simp]: "valid_refs (w\<lparr>focus := f\<rparr>) = valid_refs w"
  by (simp add: valid_refs_iff)

lemma read_rest_valid:
  "valid_refs w \<Longrightarrow> read_rest w l = Inr (l', w') \<Longrightarrow> valid_refs w'"
proof (induction w l rule: read_rest.induct)
  case (1 w l)
  show ?case
  proof (cases "file_obj w = None")
    case True
    with "1.prems" show ?thesis by (simp add: read_rest.simps)
  next
    case False
    with "1.prems" obtain x w1 where rd: "read_next_line w = Inr (x, w1)"
      and rest: "read_rest w1 (l @ [x]) = Inr (l', w')"
      by (auto simp: read_rest.simps [of w l] split: sum.splits)
    from "1.IH" [OF False rd refl read_next_line_valid [OF "1.prems"(1) rd] rest]
    show ?thesis .
  qed
qed

lemma step_valid: "valid_refs w \<Longrightarrow> step w c = Inr w' \<Longrightarrow> valid_refs w'"
  by (cases c)
     (auto simp: get_focus_def get_next_def get_prev_def set_focus_def get_coords_def
        paste_from_clipboard_def clear_clipboard_def save_file_def Let_def
        fold_paste_line_valid
        split: sum.splits option.splits
        dest: get_at_pos_valid split_focus_valid combine_prev_valid combine_next_valid
          cut_valid read_rest_valid, simp add: valid_refs_def)

lemma run_valid: "valid_refs w \<Longrightarrow> run w cs = Inr w' \<Longrightarrow> valid_refs w'"
proof (induction cs arbitrary: w)
  case Nil
  then show ?case by simp
next
  case (Cons c cs)
  then obtain w1 where "step w c = Inr w1" "run w1 cs = Inr w'"
    by (auto split: sum.splits)
  with Cons show ?case using step_valid by blast
qed

lemma reachable_valid: "run (LineWalker s) cs = Inr w \<Longrightarrow> valid_refs w"
  using run_valid [OF valid_refs_LineWalker] .

end
